theory Spec2Isabelle
  imports Complex_Main
begin

section \<open>Exceptions\<close>

text \<open>
  The exception classes of \<^verbatim>\<open>utils/logging_utils.py\<close> and the built-in or library
  exceptions the code raises or catches. Each carries its message (\<^verbatim>\<open>str(e)\<close>).
  \<open>Psycopg2Error\<close> stands for \<^verbatim>\<open>psycopg2.Error\<close>, \<open>OtherException\<close> for any other
  exception raised by a library (the embedding service, the text extractors).
\<close>

datatype error =
    ValueError string
  | FileNotFoundError string
  | DocumentProcessingError string
  | DatabaseError string
  | EmbeddingGenerationError string
  | ConfigurationError string
  | DatabaseSearchError string
  | EmbeddingError string
  | Psycopg2Error string
  | OtherException string

fun message :: "error \<Rightarrow> string" where
  "message (ValueError m) = m"
| "message (FileNotFoundError m) = m"
| "message (DocumentProcessingError m) = m"
| "message (DatabaseError m) = m"
| "message (EmbeddingGenerationError m) = m"
| "message (ConfigurationError m) = m"
| "message (DatabaseSearchError m) = m"
| "message (EmbeddingError m) = m"
| "message (Psycopg2Error m) = m"
| "message (OtherException m) = m"

section \<open>Python strings\<close>

text \<open>
  A Python \<^verbatim>\<open>str\<close> is modelled as a \<open>string\<close>, one \<open>char\<close> per code point, which covers
  the code points 0 to 255. \<open>isspace\<close> is \<^verbatim>\<open>str.isspace\<close> on that range: the characters
  that \<^verbatim>\<open>str.strip()\<close> removes.
\<close>

definition isspace :: "char \<Rightarrow> bool" where
  "isspace c = (let n = (of_char c :: nat) in
      (9 \<le> n \<and> n \<le> 13) \<or> (28 \<le> n \<and> n \<le> 32) \<or> n = 133 \<or> n = 160)"

definition lstrip :: "string \<Rightarrow> string" where
  "lstrip s = dropWhile isspace s"

definition rstrip :: "string \<Rightarrow> string" where
  "rstrip s = rev (dropWhile isspace (rev s))"

definition strip :: "string \<Rightarrow> string" where
  "strip s = rstrip (lstrip s)"

text \<open>
  \<^verbatim>\<open>text.split(sep)\<close>: the pieces between the occurrences of \<open>sep\<close>, found from the left and
  not overlapping. Python raises on an empty separator; the code only splits on the
  constant \<^verbatim>\<open>'\n\n'\<close>, and the model leaves a string unsplit for an empty separator.
\<close>

function str_split :: "string \<Rightarrow> string \<Rightarrow> string list" where
  "str_split sep [] = [[]]"
| "str_split sep (c # cs) =
     (if sep \<noteq> [] \<and> take (length sep) (c # cs) = sep
      then [] # str_split sep (drop (length sep) (c # cs))
      else (case str_split sep cs of [] \<Rightarrow> [[c]] | p # ps \<Rightarrow> (c # p) # ps))"
  by pat_completeness auto
termination
  by (relation "measure (\<lambda>(sep, s). length s)") auto

text \<open>\<^verbatim>\<open>sep.join(parts)\<close>.\<close>

fun str_join :: "string \<Rightarrow> string list \<Rightarrow> string" where
  "str_join sep [] = []"
| "str_join sep [x] = x"
| "str_join sep (x # y # ys) = x @ sep @ str_join sep (y # ys)"

text \<open>\<^verbatim>\<open>sep in s\<close>: the substring test.\<close>

fun contains :: "string \<Rightarrow> string \<Rightarrow> bool" where
  "contains sep [] = (sep = [])"
| "contains sep (c # cs) = (take (length sep) (c # cs) = sep \<or> contains sep cs)"

definition startswith :: "string \<Rightarrow> string \<Rightarrow> bool" where
  "startswith s p = (take (length p) s = p)"

text \<open>\<^verbatim>\<open>str(n)\<close> for a non-negative integer, as the f-strings of the messages format it.\<close>

definition digit_char :: "nat \<Rightarrow> char" where
  "digit_char d = ''0123456789'' ! d"

fun str_nat :: "nat \<Rightarrow> string" where
  "str_nat n = (if n < 10 then [digit_char n]
                else str_nat (n div 10) @ [digit_char (n mod 10)])"

declare str_nat.simps [simp del]

section \<open>The chunker (\<^verbatim>\<open>utils/shared_utils.py\<close>)\<close>

definition para_sep :: string where
  "para_sep = ''\<newline>\<newline>''"

definition chunk_by_paragraphs :: "string \<Rightarrow> error + string list" where
  "chunk_by_paragraphs text =
     (if text = [] \<or> strip text = [] then Inl (ValueError ''Cannot chunk empty text'')
      else Inr (map strip (filter (\<lambda>chunk. strip chunk \<noteq> []) (str_split para_sep text))))"

text \<open>
  What the chunker's contract promises of each chunk: not empty, nothing left to
  strip, and no paragraph separator inside.
\<close>

definition good_chunk :: "string \<Rightarrow> bool" where
  "good_chunk c \<longleftrightarrow> c \<noteq> [] \<and> strip c = c \<and> \<not> contains para_sep c"


section \<open>The outside world\<close>

text \<open>
  What the code reads from outside is an \<open>environment\<close>: the process environment
  variables, the remote embedding service, the faults of the database server and the
  file system with its text extractors. The service and the database are indexed by the
  number of calls made so far, so that a call may fail and its retry succeed.
\<close>

type_synonym vector = "real list"

record environment =
  getenv :: "string \<Rightarrow> string option"
  embed_content :: "nat \<Rightarrow> string \<Rightarrow> string list \<Rightarrow> error + vector list"
  db_fault :: "nat \<Rightarrow> string option"
  file_suffix :: "string \<Rightarrow> string"
  file_exists :: "string \<Rightarrow> bool"
  pdf_pages_text :: "string \<Rightarrow> error + string"
  docx_paragraphs :: "string \<Rightarrow> error + string list"

text \<open>
  \<^item> \<open>embed_content env n model content\<close> is the outcome of the \<open>n\<close>-th call of
    \<^verbatim>\<open>genai.embed_content(model=model, content=content)\<close>: the exception it raises, or
    the \<^verbatim>\<open>'embedding'\<close> entry of its response.
  \<^item> \<open>db_fault env n\<close> is \<open>Some m\<close> when the \<open>n\<close>-th interaction with the database
    server raises \<^verbatim>\<open>psycopg2.Error\<close> with message \<open>m\<close>.
  \<^item> \<open>file_suffix env p\<close> is \<^verbatim>\<open>Path(p).suffix.lower()\<close>.
  \<^item> \<open>pdf_pages_text env p\<close> is the text of the pages of the PDF as PyPDF2 joins it,
    \<open>docx_paragraphs env p\<close> the paragraph texts of the DOCX document.
\<close>

text \<open>
  The mutable state: the rows of the table \<^verbatim>\<open>documents\<close>, the number of database
  interactions and of remote calls so far, the remote calls and the calls of
  \<^verbatim>\<open>time.sleep\<close> (with the seconds slept) in the order they happen, and the pipeline
  steps that \<^verbatim>\<open>process_document\<close> has entered.
\<close>

datatype event = Called nat | Slept real

record chunk_info =
  filename :: string
  chunk_text :: string
  split_strategy :: string

record document_row = chunk_info +
  embedding :: vector
  embedding_norm :: "real option"

record 's search_result = chunk_info +
  similarity_score :: 's

datatype step = Delete | Load | Chunk | Embed | Store

record world =
  documents :: "document_row list"
  db_calls :: nat
  api_calls :: nat
  events :: "event list"
  steps :: "step list"

section \<open>Configuration (\<^verbatim>\<open>utils/db_utils.py\<close>)\<close>

record config =
  api_key :: string
  postgres_url :: string
  embedding_model :: string

text \<open>
  \<^verbatim>\<open>load_configuration\<close>. The source caches the dictionary in a global; the environment
  variables do not change in the model, so the cache is not observable and is left out.
  \<^verbatim>\<open>not api_key\<close> holds for a missing variable and for an empty one.
\<close>

definition load_configuration :: "environment \<Rightarrow> error + config" where
  "load_configuration env =
     (case getenv env ''GEMINI_API_KEY'' of
        None \<Rightarrow> Inl (ConfigurationError ''GEMINI_API_KEY not found in environment'')
      | Some key \<Rightarrow>
          if key = [] then Inl (ConfigurationError ''GEMINI_API_KEY not found in environment'')
          else (case getenv env ''EMBEDDING_MODEL'' of
             None \<Rightarrow> Inl (ConfigurationError ''EMBEDDING_MODEL not found in environment'')
           | Some m \<Rightarrow>
               if m = [] then Inl (ConfigurationError ''EMBEDDING_MODEL not found in environment'')
               else (let m' = (if startswith m ''models/'' \<or> startswith m ''tunedModels/''
                               then m else ''models/'' @ m)
                     in case getenv env ''POSTGRES_URL'' of
                          None \<Rightarrow> Inl (ConfigurationError ''POSTGRES_URL not found in environment'')
                        | Some url \<Rightarrow>
                            if url = [] then Inl (ConfigurationError ''POSTGRES_URL not found in environment'')
                            else Inr \<lparr>api_key = key, postgres_url = url, embedding_model = m'\<rparr>)))"

section \<open>The embedding client (\<^verbatim>\<open>utils/shared_utils.py\<close>)\<close>

text \<open>
  \<^verbatim>\<open>_embed_with_retry\<close>: the loop \<^verbatim>\<open>for attempt in range(max_retries)\<close> is the recursion
  of \<open>retry_attempts\<close> over the attempts still to make. A loop that ends without a
  \<^verbatim>\<open>return\<close> (no attempt at all) returns \<^verbatim>\<open>None\<close>.
\<close>

fun retry_attempts ::
  "environment \<Rightarrow> string \<Rightarrow> string list \<Rightarrow> nat \<Rightarrow> nat list \<Rightarrow> world
     \<Rightarrow> (error + vector list option) \<times> world" where
  "retry_attempts env model content max_retries [] w = (Inr None, w)"
| "retry_attempts env model content max_retries (attempt # rest) w =
     (let w1 = w\<lparr>api_calls := api_calls w + 1, events := events w @ [Called (api_calls w)]\<rparr> in
      case embed_content env (api_calls w) model content of
        Inr response \<Rightarrow> (Inr (Some response), w1)
      | Inl e \<Rightarrow>
          if int attempt = int max_retries - 1
          then (Inl (EmbeddingGenerationError
                  (''Failed after '' @ str_nat max_retries @ '' attempts: '' @ message e)), w1)
          else (let wait_time = 2 ^ attempt
                in retry_attempts env model content max_retries rest
                     (w1\<lparr>events := events w1 @ [Slept wait_time]\<rparr>)))"

definition embed_with_retry ::
  "environment \<Rightarrow> string \<Rightarrow> string list \<Rightarrow> nat \<Rightarrow> world
     \<Rightarrow> (error + vector list option) \<times> world" where
  "embed_with_retry env model content max_retries w =
     retry_attempts env model content max_retries [0..<max_retries] w"

definition BATCH_SIZE :: nat where
  "BATCH_SIZE = 10"

text \<open>\<^verbatim>\<open>range(0, n, BATCH_SIZE)\<close>.\<close>

definition batch_starts :: "nat \<Rightarrow> nat list" where
  "batch_starts n = map (\<lambda>k. k * BATCH_SIZE) [0..<(n + BATCH_SIZE - 1) div BATCH_SIZE]"

text \<open>
  The batch loop of \<^verbatim>\<open>generate_embeddings\<close>, with the list \<^verbatim>\<open>embeddings\<close> built so
  far. \<^verbatim>\<open>_embed_with_retry\<close> is called with its default \<^verbatim>\<open>max_retries=3\<close>. Subscripting
  \<^verbatim>\<open>None\<close> raises a \<^verbatim>\<open>TypeError\<close>.
\<close>

fun embed_batches ::
  "environment \<Rightarrow> string \<Rightarrow> string list \<Rightarrow> nat list \<Rightarrow> vector list \<Rightarrow> world
     \<Rightarrow> (error + vector list) \<times> world" where
  "embed_batches env model chunks [] embeddings w = (Inr embeddings, w)"
| "embed_batches env model chunks (batch_start # rest) embeddings w =
     (let batch_end = min (batch_start + BATCH_SIZE) (length chunks);
          batch = take (batch_end - batch_start) (drop batch_start chunks)
      in case embed_with_retry env model batch 3 w of
           (Inl e, w1) \<Rightarrow> (Inl e, w1)
         | (Inr None, w1) \<Rightarrow>
             (Inl (OtherException (CHR 0x27 # ''NoneType'' @ CHR 0x27 # '' object is not subscriptable'')), w1)
         | (Inr (Some batch_result), w1) \<Rightarrow>
             embed_batches env model chunks rest (embeddings @ batch_result)
               (if batch_end < length chunks
                then w1\<lparr>events := events w1 @ [Slept (1 / 10)]\<rparr> else w1))"

definition generate_embeddings ::
  "environment \<Rightarrow> string list \<Rightarrow> world \<Rightarrow> (error + vector list) \<times> world" where
  "generate_embeddings env chunks w =
     (if chunks = []
      then (Inl (ValueError ''Cannot generate embeddings for empty chunks list''), w)
      else case load_configuration env of
             Inl e \<Rightarrow> (Inl (EmbeddingGenerationError (''Configuration error: '' @ message e)), w)
           | Inr config \<Rightarrow>
               (case embed_batches env (embedding_model config) chunks
                       (batch_starts (length chunks)) [] w of
                  (Inl e, w') \<Rightarrow>
                    (Inl (EmbeddingGenerationError
                       (''Failed to generate embeddings: '' @ message e)), w')
                | (Inr embeddings, w') \<Rightarrow> (Inr embeddings, w')))"


section \<open>The vector store (\<^verbatim>\<open>utils/db_utils.py\<close>, \<^verbatim>\<open>index_documents.py\<close>)\<close>

text \<open>
  Numbers are real numbers: the model idealises the single-precision arithmetic of
  numpy and of the \<^verbatim>\<open>REAL\<close> columns. The columns \<^verbatim>\<open>id\<close> and \<^verbatim>\<open>created_at\<close> are not
  read by the code and are left out of a row. A \<^verbatim>\<open>NULL\<close> norm is \<open>None\<close>.
\<close>

text \<open>
  One interaction with the database server: it fails when the environment says so,
  and counts in either case.
\<close>

definition db_interaction :: "environment \<Rightarrow> world \<Rightarrow> (error + unit) \<times> world" where
  "db_interaction env w =
     (case db_fault env (db_calls w) of
        Some m \<Rightarrow> (Inl (Psycopg2Error m), w\<lparr>db_calls := db_calls w + 1\<rparr>)
      | None \<Rightarrow> (Inr (), w\<lparr>db_calls := db_calls w + 1\<rparr>))"

definition get_db_connection :: "environment \<Rightarrow> world \<Rightarrow> (error + unit) \<times> world" where
  "get_db_connection env w =
     (case load_configuration env of
        Inl e \<Rightarrow> (Inl (DatabaseError (''Failed to get database connection: '' @ message e)), w)
      | Inr config \<Rightarrow>
          (case db_interaction env w of
             (Inl e, w1) \<Rightarrow>
               (Inl (DatabaseError (''Failed to get database connection: '' @ message e)), w1)
           | (Inr u, w1) \<Rightarrow> (Inr (), w1)))"

text \<open>
  \<^verbatim>\<open>ensure_database_schema\<close>: its statements and the commit stand in one \<^verbatim>\<open>try\<close> block
  with one handler, and are one interaction here. The table is taken to hold the rows
  of \<open>documents\<close>, created empty when absent.
\<close>

definition ensure_database_schema :: "environment \<Rightarrow> world \<Rightarrow> (error + unit) \<times> world" where
  "ensure_database_schema env w =
     (case db_interaction env w of
        (Inl e, w1) \<Rightarrow> (Inl (DatabaseError (''Failed to ensure database schema: '' @ message e)), w1)
      | (Inr u, w1) \<Rightarrow> (Inr (), w1))"

text \<open>
  The SQL functions that \<^verbatim>\<open>ensure_database_schema\<close> declares. \<^verbatim>\<open>SUM\<close> over no element
  is \<^verbatim>\<open>NULL\<close>, so the norm of an empty vector is \<^verbatim>\<open>NULL\<close>. \<open>dot_product\<close> pairs the
  elements by position; the model takes the empty sum for 0. That sum arises only when
  one of the two vectors is empty, and neither is when a row is scored: the query has a
  non-zero norm, and a row that \<^verbatim>\<open>store_chunks_to_db\<close> wrote with a positive norm is not
  empty.
\<close>

definition dot_product :: "vector \<Rightarrow> vector \<Rightarrow> real" where
  "dot_product a b = sum_list (map (\<lambda>(ai, bi). ai * bi) (zip a b))"

definition vector_norm :: "vector \<Rightarrow> real option" where
  "vector_norm a = (if a = [] then None else Some (sqrt (sum_list (map (\<lambda>ai. ai * ai) a))))"

text \<open>
  \<^verbatim>\<open>delete_document_data\<close>: \<^verbatim>\<open>if filename:\<close> is false for \<^verbatim>\<open>None\<close> and for the empty
  string, and then the table is truncated. A failure rolls back: the rows stay.
\<close>

definition delete_document_data ::
  "environment \<Rightarrow> string option \<Rightarrow> world \<Rightarrow> bool \<times> world" where
  "delete_document_data env fname w =
     (case get_db_connection env w of
        (Inl e, w1) \<Rightarrow> (False, w1)
      | (Inr u, w1) \<Rightarrow>
          (case db_interaction env w1 of
             (Inl e, w2) \<Rightarrow> (False, w2)
           | (Inr u, w2) \<Rightarrow>
               (case db_interaction env w2 of
                  (Inl e, w3) \<Rightarrow> (False, w3)
                | (Inr u, w3) \<Rightarrow>
                    (True, w3\<lparr>documents :=
                       (case fname of
                          None \<Rightarrow> []
                        | Some f \<Rightarrow>
                            if f \<noteq> [] then filter (\<lambda>r. filename r \<noteq> f) (documents w3)
                            else [])\<rparr>))))"

definition validate_data_for_indexing ::
  "string list \<Rightarrow> vector list \<Rightarrow> string \<Rightarrow> error + unit" where
  "validate_data_for_indexing chunks embeddings fname =
     (if chunks = [] then Inl (ValueError ''Chunks list cannot be empty for indexing.'')
      else if embeddings = [] then Inl (ValueError ''Embeddings list cannot be empty for indexing.'')
      else if length chunks \<noteq> length embeddings
        then Inl (ValueError (''Chunks count ('' @ str_nat (length chunks)
               @ '') doesn't match embeddings count ('' @ str_nat (length embeddings) @ '').''))
      else if fname = [] \<or> strip fname = []
        then Inl (ValueError ''Filename cannot be empty for indexing.'')
      else Inr ())"

text \<open>
  \<^verbatim>\<open>store_chunks_to_db\<close> returns a \<^verbatim>\<open>bool\<close>; the sum type leaves room for an exception
  that would reach the caller. The interactions are the connection, the schema, the
  insert of all rows in one statement and the commit.
\<close>

definition store_chunks_to_db ::
  "environment \<Rightarrow> string list \<Rightarrow> vector list \<Rightarrow> string \<Rightarrow> string \<Rightarrow> world
     \<Rightarrow> (error + bool) \<times> world" where
  "store_chunks_to_db env chunks embeddings fname strategy w =
     (case validate_data_for_indexing chunks embeddings fname of
        Inl e \<Rightarrow> (Inr False, w)
      | Inr u \<Rightarrow>
          (case get_db_connection env w of
             (Inl e, w1) \<Rightarrow> (Inr False, w1)
           | (Inr u, w1) \<Rightarrow>
               (case ensure_database_schema env w1 of
                  (Inl e, w2) \<Rightarrow> (Inr False, w2)
                | (Inr u, w2) \<Rightarrow>
                    (let data_to_insert =
                           map (\<lambda>(chunk, emb).
                                  \<lparr>filename = fname, chunk_text = chunk, split_strategy = strategy,
                                   embedding = emb, embedding_norm = vector_norm emb\<rparr>)
                               (zip chunks embeddings)
                     in case db_interaction env w2 of
                          (Inl e, w3) \<Rightarrow> (Inr False, w3)
                        | (Inr u, w3) \<Rightarrow>
                            (case db_interaction env w3 of
                               (Inl e, w4) \<Rightarrow> (Inr False, w4)
                             | (Inr u, w4) \<Rightarrow>
                                 (Inr True,
                                  w4\<lparr>documents := documents w4 @ data_to_insert\<rparr>))))))"


section \<open>The similarity search engine (\<^verbatim>\<open>search_documents.py\<close>)\<close>

text \<open>
  The query of \<^verbatim>\<open>_search_single_embedding\<close>, clause by clause. \<open>sql_divide\<close> is the
  division of the server, which fails on a zero divisor. \<open>score_rows\<close> evaluates the
  \<^verbatim>\<open>SELECT\<close> list on the rows that pass \<^verbatim>\<open>WHERE embedding_norm > 0\<close> (a \<^verbatim>\<open>NULL\<close> norm
  does not pass). \<open>order_by_desc\<close> is \<^verbatim>\<open>ORDER BY similarity_score DESC\<close>; the server
  leaves the order of equal scores open, and the model keeps the storage order among them.
\<close>

definition sql_divide :: "real \<Rightarrow> real \<Rightarrow> error + real" where
  "sql_divide x y = (if y = 0 then Inl (Psycopg2Error ''division by zero'') else Inr (x / y))"

fun score_rows :: "document_row list \<Rightarrow> vector \<Rightarrow> real \<Rightarrow> error + real search_result list" where
  "score_rows [] q query_norm = Inr []"
| "score_rows (r # rs) q query_norm =
     (case embedding_norm r of
        None \<Rightarrow> score_rows rs q query_norm
      | Some n \<Rightarrow>
          if n > 0
          then (case sql_divide (dot_product (embedding r) q) (n * query_norm) of
                  Inl e \<Rightarrow> Inl e
                | Inr s \<Rightarrow>
                    (case score_rows rs q query_norm of
                       Inl e \<Rightarrow> Inl e
                     | Inr scored \<Rightarrow>
                         Inr (\<lparr>filename = filename r, chunk_text = chunk_text r,
                               split_strategy = split_strategy r, similarity_score = s\<rparr> # scored)))
          else score_rows rs q query_norm)"

definition order_by_desc :: "real search_result list \<Rightarrow> real search_result list" where
  "order_by_desc rows = sort_key (\<lambda>r. - similarity_score r) rows"

text \<open>\<^verbatim>\<open>np.linalg.norm\<close> of the query vector.\<close>

definition linalg_norm :: "vector \<Rightarrow> real" where
  "linalg_norm v = sqrt (sum_list (map (\<lambda>x. x * x) v))"

text \<open>
  \<^verbatim>\<open>_search_single_embedding\<close>, on an open connection. The server refuses a negative
  \<^verbatim>\<open>LIMIT\<close>. The handler catches \<^verbatim>\<open>psycopg2.Error\<close> only.
\<close>

definition search_single_embedding ::
  "environment \<Rightarrow> vector \<Rightarrow> int \<Rightarrow> world \<Rightarrow> (error + real search_result list) \<times> world" where
  "search_single_embedding env emb top_k w =
     (let query_norm = linalg_norm emb in
      if query_norm = 0 then (Inr [], w)
      else (case db_interaction env w of
              (Inl e, w1) \<Rightarrow>
                (Inl (DatabaseSearchError (''Failed to search database: '' @ message e)), w1)
            | (Inr u, w1) \<Rightarrow>
                if top_k < 0
                then (Inl (DatabaseSearchError
                        ''Failed to search database: LIMIT must not be negative''), w1)
                else (case score_rows (documents w1) emb query_norm of
                        Inl e \<Rightarrow>
                          (Inl (DatabaseSearchError
                             (''Failed to search database: '' @ message e)), w1)
                      | Inr scored \<Rightarrow>
                          (Inr (take (nat top_k) (order_by_desc scored)), w1))))"

text \<open>
  \<^verbatim>\<open>_merge_search_results\<close>. The state of the two loops is the list \<^verbatim>\<open>final_results\<close>
  and the dictionary \<^verbatim>\<open>seen_chunks\<close>. \<open>merge_round\<close> is the inner loop over the result
  lists for one \<^verbatim>\<open>round_index\<close>, \<open>merge_rounds\<close> the outer loop over the rounds still
  to run; each returns at a \<^verbatim>\<open>break\<close>. The scores are compared only, so their type is
  any linear order. An index found in \<^verbatim>\<open>seen_chunks\<close> always lies within
  \<^verbatim>\<open>final_results\<close> (the invariant \<open>merge_inv\<close> below), so the read at that index never
  fails.
\<close>

type_synonym 's merge_state = "'s search_result list \<times> (string \<rightharpoonup> nat)"

fun merge_round ::
  "int \<Rightarrow> nat \<Rightarrow> ('s::linorder) search_result list list \<Rightarrow> 's merge_state \<Rightarrow> 's merge_state" where
  "merge_round top_k round_index [] (final_results, seen_chunks) = (final_results, seen_chunks)"
| "merge_round top_k round_index (search_results # rest) (final_results, seen_chunks) =
     (if int (length final_results) \<ge> top_k then (final_results, seen_chunks)
      else if round_index \<ge> length search_results
        then merge_round top_k round_index rest (final_results, seen_chunks)
      else (let result = search_results ! round_index;
                ct = chunk_text result
            in case seen_chunks ct of
                 Some existing_index \<Rightarrow>
                   merge_round top_k round_index rest
                     (if similarity_score result > similarity_score (final_results ! existing_index)
                      then final_results[existing_index := result] else final_results,
                      seen_chunks)
               | None \<Rightarrow>
                   merge_round top_k round_index rest
                     (final_results @ [result], seen_chunks(ct \<mapsto> length final_results))))"

fun merge_rounds ::
  "int \<Rightarrow> nat list \<Rightarrow> ('s::linorder) search_result list list \<Rightarrow> 's merge_state \<Rightarrow> 's merge_state" where
  "merge_rounds top_k [] all_search_results st = st"
| "merge_rounds top_k (round_index # rounds) all_search_results (final_results, seen_chunks) =
     (if int (length final_results) \<ge> top_k then (final_results, seen_chunks)
      else merge_rounds top_k rounds all_search_results
             (merge_round top_k round_index all_search_results (final_results, seen_chunks)))"

definition merge_search_results ::
  "('s::linorder) search_result list list \<Rightarrow> int \<Rightarrow> 's search_result list" where
  "merge_search_results all_search_results top_k =
     fst (merge_rounds top_k [0..<nat top_k] all_search_results ([], Map.empty))"

text \<open>The loop of \<^verbatim>\<open>similarity_search\<close> over the query embeddings.\<close>

fun search_each ::
  "environment \<Rightarrow> vector list \<Rightarrow> int \<Rightarrow> real search_result list list \<Rightarrow> world
     \<Rightarrow> (error + real search_result list list) \<times> world" where
  "search_each env [] top_k all_search_results w = (Inr all_search_results, w)"
| "search_each env (emb # rest) top_k all_search_results w =
     (case search_single_embedding env emb top_k w of
        (Inl e, w1) \<Rightarrow> (Inl e, w1)
      | (Inr search_results, w1) \<Rightarrow>
          search_each env rest top_k (all_search_results @ [search_results]) w1)"

text \<open>
  \<^verbatim>\<open>similarity_search\<close>. Its handler catches \<^verbatim>\<open>DatabaseError\<close> and \<^verbatim>\<open>psycopg2.Error\<close>;
  a \<^verbatim>\<open>DatabaseSearchError\<close> of a single search passes through it unchanged.
\<close>

definition similarity_search ::
  "environment \<Rightarrow> vector list \<Rightarrow> int \<Rightarrow> world \<Rightarrow> (error + real search_result list) \<times> world" where
  "similarity_search env query_embeddings top_k w =
     (if query_embeddings = [] then (Inl (ValueError ''Cannot search without embeddings''), w)
      else (case get_db_connection env w of
              (Inl e, w1) \<Rightarrow>
                (Inl (DatabaseSearchError (''A database error occurred: '' @ message e)), w1)
            | (Inr u, w1) \<Rightarrow>
                (case ensure_database_schema env w1 of
                   (Inl e, w2) \<Rightarrow>
                     (Inl (DatabaseSearchError (''A database error occurred: '' @ message e)), w2)
                 | (Inr u, w2) \<Rightarrow>
                     (case search_each env query_embeddings top_k [] w2 of
                        (Inl e, w3) \<Rightarrow> (Inl e, w3)
                      | (Inr all_search_results, w3) \<Rightarrow>
                          (Inr (merge_search_results all_search_results top_k), w3)))))"

section \<open>The indexing orchestrator (\<^verbatim>\<open>index_documents.py\<close>)\<close>

text \<open>
  \<^verbatim>\<open>re.sub(r'(\n\s*){2,}', '\n\n', raw_text)\<close>: a match starts at a newline and runs to the
  end of the whitespace that follows it, and exists when that whitespace holds another
  newline.
\<close>

function normalize_breaks :: "string \<Rightarrow> string" where
  "normalize_breaks [] = []"
| "normalize_breaks (c # cs) =
     (if c = CHR ''\<newline>'' \<and> CHR ''\<newline>'' \<in> set (takeWhile isspace cs)
      then para_sep @ normalize_breaks (dropWhile isspace cs)
      else c # normalize_breaks cs)"
  by pat_completeness auto
termination
  by (relation "measure length") (auto simp: length_dropWhile_le less_Suc_eq_le)

definition extract_pdf_text :: "environment \<Rightarrow> string \<Rightarrow> error + string" where
  "extract_pdf_text env file_path =
     (case pdf_pages_text env file_path of
        Inl e \<Rightarrow> Inl e
      | Inr raw_text \<Rightarrow> if raw_text = [] then Inr [] else Inr (normalize_breaks raw_text))"

definition extract_docx_text :: "environment \<Rightarrow> string \<Rightarrow> error + string" where
  "extract_docx_text env file_path =
     (case docx_paragraphs env file_path of
        Inl e \<Rightarrow> Inl e
      | Inr paragraphs \<Rightarrow> Inr (str_join para_sep (filter (\<lambda>t. strip t \<noteq> []) paragraphs)))"

definition load_document :: "environment \<Rightarrow> string \<Rightarrow> error + string" where
  "load_document env file_path =
     (let file_extension = file_suffix env file_path in
      if file_extension \<noteq> ''.pdf'' \<and> file_extension \<noteq> ''.docx''
      then Inl (ValueError (''Unsupported file format: '' @ file_extension
                  @ ''. Only PDF and DOCX are supported.''))
      else if \<not> file_exists env file_path
      then Inl (FileNotFoundError (''File not found: '' @ file_path))
      else (case (if file_extension = ''.pdf'' then extract_pdf_text env file_path
                  else extract_docx_text env file_path) of
              Inl e \<Rightarrow>
                Inl (DocumentProcessingError
                  (''Failed to process file '' @ file_path @ '': '' @ message e))
            | Inr text_content \<Rightarrow>
                if text_content = [] \<or> strip text_content = []
                then Inl (ValueError (''File is empty: '' @ file_path))
                else Inr text_content))"

text \<open>
  \<^verbatim>\<open>process_document\<close>. Every exception of its body is caught and answered with
  \<^verbatim>\<open>False\<close>. \<open>enter\<close> records in \<open>steps\<close> that a step of the pipeline starts; the source
  keeps no such record, it is what the order of the steps is stated on.
\<close>

definition enter :: "step \<Rightarrow> world \<Rightarrow> world" where
  "enter s w = w\<lparr>steps := steps w @ [s]\<rparr>"

definition process_document :: "environment \<Rightarrow> string \<Rightarrow> world \<Rightarrow> bool \<times> world" where
  "process_document env file_path w =
     (case delete_document_data env (Some file_path) (enter Delete w) of
        (False, w1) \<Rightarrow> (False, w1)
      | (True, w1) \<Rightarrow>
          (case load_document env file_path of
             Inl e \<Rightarrow> (False, enter Load w1)
           | Inr text \<Rightarrow>
               (case chunk_by_paragraphs text of
                  Inl e \<Rightarrow> (False, enter Chunk (enter Load w1))
                | Inr chunks \<Rightarrow>
                    (case generate_embeddings env chunks (enter Embed (enter Chunk (enter Load w1))) of
                       (Inl e, w2) \<Rightarrow> (False, w2)
                     | (Inr embeddings, w2) \<Rightarrow>
                         (case store_chunks_to_db env chunks embeddings file_path ''paragraph''
                                 (enter Store w2) of
                            (Inl e, w3) \<Rightarrow> (False, w3)
                          | (Inr db_success, w3) \<Rightarrow> (db_success, w3))))))"


section \<open>Notions used to state the properties\<close>

text \<open>
  The invariant of the merge loops: the chunk texts of \<^verbatim>\<open>final_results\<close> are pairwise
  different, \<^verbatim>\<open>seen_chunks\<close> maps a chunk text to the index at which a result with
  that text stands, and every result's text is a key of \<^verbatim>\<open>seen_chunks\<close>.
\<close>

definition merge_inv :: "'s search_result list \<times> (string \<rightharpoonup> nat) \<Rightarrow> bool" where
  "merge_inv st \<longleftrightarrow>
     (case st of (final_results, seen_chunks) \<Rightarrow>
        distinct (map chunk_text final_results) \<and>
        (\<forall>ct i. seen_chunks ct = Some i \<longrightarrow>
           i < length final_results \<and> chunk_text (final_results ! i) = ct) \<and>
        (\<forall>r\<in>set final_results. seen_chunks (chunk_text r) \<noteq> None))"

text \<open>A search result of the document \<^verbatim>\<open>doc.pdf\<close>, for writing examples.\<close>

definition hit :: "string \<Rightarrow> 's \<Rightarrow> 's search_result" where
  "hit t s = \<lparr>filename = ''doc.pdf'', chunk_text = t, split_strategy = ''paragraph'',
              similarity_score = s\<rparr>"

text \<open>
  A list of results covers an entry when it holds a result with the entry's chunk text
  and a score that is not lower.
\<close>

definition covers :: "('s::linorder) search_result list \<Rightarrow> 's search_result \<Rightarrow> bool" where
  "covers final_results e \<longleftrightarrow>
     list_ex (\<lambda>x. chunk_text x = chunk_text e \<and> similarity_score e \<le> similarity_score x)
       final_results"

text \<open>
  An environment for examples: the three configuration variables are set, the remote
  service fails exactly at the calls listed in \<open>api_failures\<close> and otherwise embeds a
  text as the vector of its length and 1, the database fails exactly at the
  interactions listed in \<open>db_failures\<close>, and every path is an existing PDF file with
  the text \<open>pdf_text\<close>. \<open>world0\<close> is a fresh state over the given table rows.
\<close>

definition example_env :: "nat list \<Rightarrow> nat list \<Rightarrow> string \<Rightarrow> environment" where
  "example_env api_failures db_failures pdf_text =
     \<lparr>getenv = [''GEMINI_API_KEY'' \<mapsto> ''secret'', ''EMBEDDING_MODEL'' \<mapsto> ''embedding-001'',
                ''POSTGRES_URL'' \<mapsto> ''postgresql://localhost/rag''],
      embed_content = (\<lambda>n model content.
         if n \<in> set api_failures then Inl (OtherException ''service unavailable'')
         else Inr (map (\<lambda>t. [real (length t), 1]) content)),
      db_fault = (\<lambda>n. if n \<in> set db_failures then Some ''connection lost'' else None),
      file_suffix = (\<lambda>p. ''.pdf''),
      file_exists = (\<lambda>p. True),
      pdf_pages_text = (\<lambda>p. Inr pdf_text),
      docx_paragraphs = (\<lambda>p. Inr [])\<rparr>"

definition world0 :: "document_row list \<Rightarrow> world" where
  "world0 rows = \<lparr>documents = rows, db_calls = 0, api_calls = 0, events = [], steps = []\<rparr>"

text \<open>
  The rows that pass \<^verbatim>\<open>WHERE embedding_norm > 0\<close>, the search result the query computes
  for such a row, and a stored row of the document \<^verbatim>\<open>doc.pdf\<close> for examples.
\<close>

definition norm_positive :: "document_row \<Rightarrow> bool" where
  "norm_positive r = (case embedding_norm r of None \<Rightarrow> False | Some n \<Rightarrow> n > 0)"

definition scored_row :: "vector \<Rightarrow> real \<Rightarrow> document_row \<Rightarrow> real search_result" where
  "scored_row q query_norm r =
     \<lparr>filename = filename r, chunk_text = chunk_text r, split_strategy = split_strategy r,
      similarity_score = dot_product (embedding r) q / (the (embedding_norm r) * query_norm)\<rparr>"

definition doc_row :: "string \<Rightarrow> vector \<Rightarrow> real \<Rightarrow> document_row" where
  "doc_row t v n = \<lparr>filename = ''doc.pdf'', chunk_text = t, split_strategy = ''paragraph'',
                    embedding = v, embedding_norm = Some n\<rparr>"

text \<open>Results in descending order of similarity score.\<close>

definition sorted_desc :: "('s::linorder) search_result list \<Rightarrow> bool" where
  "sorted_desc rs = sorted_wrt (\<lambda>x y. similarity_score x \<ge> similarity_score y) rs"

text \<open>The steps of the indexing pipeline, in the order of the source.\<close>

definition pipeline :: "step list" where
  "pipeline = [Delete, Load, Chunk, Embed, Store]"


section \<open>The chunker's contract, in the words of its specification\<close>

text \<open>
  The specification describes the chunks by lines: the text is cut into lines at the
  newline characters, the lines are cut into groups at the blank lines, a paragraph is
  a non-empty group of lines joined again by newlines, and the chunks are the stripped
  paragraphs that are not empty, in source order. What counts as a blank line is a
  parameter: \<open>blank_line\<close> is a line of whitespace only or of no characters, \<open>empty_line\<close>
  a line of no characters.
\<close>

fun split_at :: "('a \<Rightarrow> bool) \<Rightarrow> 'a list \<Rightarrow> 'a list list" where
  "split_at P [] = [[]]"
| "split_at P (x # xs) =
     (if P x then [] # split_at P xs
      else (case split_at P xs of [] \<Rightarrow> [[x]] | g # gs \<Rightarrow> (x # g) # gs))"

definition text_lines :: "string \<Rightarrow> string list" where
  "text_lines s = split_at (\<lambda>c. c = CHR ''\<newline>'') s"

definition blank_line :: "string \<Rightarrow> bool" where
  "blank_line l = list_all isspace l"

definition empty_line :: "string \<Rightarrow> bool" where
  "empty_line l = (l = [])"

definition paragraphs :: "(string \<Rightarrow> bool) \<Rightarrow> string \<Rightarrow> string list" where
  "paragraphs blank s =
     map (str_join ''\<newline>'') (filter (\<lambda>g. g \<noteq> []) (split_at blank (text_lines s)))"

definition spec_chunks :: "(string \<Rightarrow> bool) \<Rightarrow> string \<Rightarrow> string list" where
  "spec_chunks blank s = filter (\<lambda>c. c \<noteq> []) (map strip (paragraphs blank s))"

text \<open>
  Two notions for the normalisation of PDF text: a text has no inner blank line when
  every line but its first and its last holds a non-whitespace character; a text ends
  in a blank line when it has more than one line and its last line is blank.
\<close>

definition no_inner_blank :: "string \<Rightarrow> bool" where
  "no_inner_blank s = list_all (\<lambda>l. \<not> blank_line l) (butlast (tl (text_lines s)))"

definition ends_blank :: "string \<Rightarrow> bool" where
  "ends_blank s = (length (text_lines s) \<ge> 2 \<and> blank_line (last (text_lines s)))"


section \<open>Properties of the chunker\<close>

subsection \<open>Stripping, splitting and joining\<close>

lemma isspace_newline: "isspace CHR ''\<newline>''"
  by (simp add: isspace_def)

lemma contains_iff: "contains sep s \<longleftrightarrow> (\<exists>u v. s = u @ sep @ v)"
proof (induction s)
  case Nil
  then show ?case by auto
next
  case (Cons c cs)
  show ?case
  proof
    assume "contains sep (c # cs)"
    then consider "take (length sep) (c # cs) = sep" | "contains sep cs" by auto
    then show "\<exists>u v. c # cs = u @ sep @ v"
    proof cases
      case 1
      then have "c # cs = [] @ sep @ drop (length sep) (c # cs)"
        by (metis append_Nil append_take_drop_id)
      then show ?thesis by blast
    next
      case 2
      then obtain u v where "cs = u @ sep @ v" using Cons.IH by auto
      then have "c # cs = (c # u) @ sep @ v" by simp
      then show ?thesis by blast
    qed
  next
    assume "\<exists>u v. c # cs = u @ sep @ v"
    then obtain u v where uv: "c # cs = u @ sep @ v" by auto
    show "contains sep (c # cs)"
    proof (cases u)
      case Nil
      then have "take (length sep) (c # cs) = sep" using uv by (metis append_Nil append_eq_conv_conj)
      then show ?thesis by simp
    next
      case (Cons a u')
      then have "cs = u' @ sep @ v" using uv by simp
      then show ?thesis using Cons.IH by auto
    qed
  qed
qed

lemma contains_appendD:
  "\<not> contains sep (u @ v) \<Longrightarrow> \<not> contains sep u \<and> \<not> contains sep v"
  unfolding contains_iff
  by (metis append.assoc)

lemma strip_sub: "\<exists>u v. s = u @ strip s @ v"
proof -
  have a: "s = takeWhile isspace s @ lstrip s" by (simp add: lstrip_def)
  have "rev (lstrip s) = takeWhile isspace (rev (lstrip s)) @ dropWhile isspace (rev (lstrip s))"
    by simp
  then have "lstrip s = strip s @ rev (takeWhile isspace (rev (lstrip s)))"
    unfolding strip_def rstrip_def by (metis rev_append rev_rev_ident)
  with a show ?thesis by metis
qed

lemma strip_no_sep: "\<not> contains sep s \<Longrightarrow> \<not> contains sep (strip s)"
  by (metis strip_sub contains_appendD)

lemma lstrip_empty_iff: "lstrip s = [] \<longleftrightarrow> (\<forall>c\<in>set s. isspace c)"
  by (simp add: lstrip_def dropWhile_eq_Nil_conv)

lemma strip_empty_iff: "strip s = [] \<longleftrightarrow> (\<forall>c\<in>set s. isspace c)"
proof -
  have "strip s = [] \<longleftrightarrow> (\<forall>c\<in>set (lstrip s). isspace c)"
    by (simp add: strip_def rstrip_def dropWhile_eq_Nil_conv)
  also have "\<dots> \<longleftrightarrow> lstrip s = []"
  proof
    assume a: "\<forall>c\<in>set (lstrip s). isspace c"
    show "lstrip s = []"
    proof (rule ccontr)
      assume ne: "lstrip s \<noteq> []"
      then have "\<not> isspace (hd (lstrip s))" unfolding lstrip_def by (rule hd_dropWhile)
      moreover have "hd (lstrip s) \<in> set (lstrip s)" using ne by simp
      ultimately show False using a by blast
    qed
  qed simp
  finally show ?thesis by (simp add: lstrip_empty_iff)
qed

lemma strip_hd: "strip s \<noteq> [] \<Longrightarrow> \<not> isspace (hd (strip s))"
proof -
  assume ne: "strip s \<noteq> []"
  let ?q = "lstrip s"
  have qne: "?q \<noteq> []" using ne by (auto simp: strip_def rstrip_def)
  then have hq: "\<not> isspace (hd ?q)" unfolding lstrip_def by (rule hd_dropWhile)
  have "rev ?q = takeWhile isspace (rev ?q) @ dropWhile isspace (rev ?q)" by simp
  then have "?q = strip s @ rev (takeWhile isspace (rev ?q))"
    unfolding strip_def rstrip_def by (metis rev_append rev_rev_ident)
  then have "hd ?q = hd (strip s)" using ne by (metis hd_append2)
  with hq show ?thesis by simp
qed

lemma strip_last: "strip s \<noteq> [] \<Longrightarrow> \<not> isspace (last (strip s))"
proof -
  assume ne: "strip s \<noteq> []"
  then have "dropWhile isspace (rev (lstrip s)) \<noteq> []" by (simp add: strip_def rstrip_def)
  then have "\<not> isspace (hd (dropWhile isspace (rev (lstrip s))))" by (rule hd_dropWhile)
  then show ?thesis using ne by (simp add: strip_def rstrip_def last_rev)
qed

lemma strip_id: "s \<noteq> [] \<Longrightarrow> \<not> isspace (hd s) \<Longrightarrow> \<not> isspace (last s) \<Longrightarrow> strip s = s"
proof -
  assume a: "s \<noteq> []" "\<not> isspace (hd s)" "\<not> isspace (last s)"
  have l: "lstrip s = s" using a by (cases s) (auto simp: lstrip_def)
  have "dropWhile isspace (rev s) = rev s" using a by (cases "rev s") (auto simp: last_rev hd_rev)
  then show ?thesis by (simp add: strip_def rstrip_def l)
qed


lemma str_split_not_Nil: "str_split sep s \<noteq> []"
  by (induction sep s rule: str_split.induct) (auto split: list.splits)

lemma str_split_good_prefix:
  "\<not> contains para_sep c \<Longrightarrow> c = [] \<or> last c \<noteq> CHR ''\<newline>'' \<Longrightarrow>
   str_split para_sep (c @ para_sep @ rest) = c # str_split para_sep rest"
proof (induction c)
  case Nil
  then show ?case by (simp add: para_sep_def)
next
  case (Cons x xs)
  have nc: "\<not> contains para_sep xs" using Cons.prems(1) by simp
  have lst: "xs = [] \<or> last xs \<noteq> CHR ''\<newline>''" using Cons.prems(2) by auto
  have ih: "str_split para_sep (xs @ para_sep @ rest) = xs # str_split para_sep rest"
    using Cons.IH [OF nc lst] .
  have nt: "take (length para_sep) (x # xs @ para_sep @ rest) \<noteq> para_sep"
  proof (cases xs)
    case Nil
    then have "x \<noteq> CHR ''\<newline>''" using Cons.prems(2) by simp
    then show ?thesis using Nil by (simp add: para_sep_def)
  next
    case (Cons y ys)
    then show ?thesis using Cons.prems(1) by (simp add: para_sep_def)
  qed
  show ?case using nt ih by simp
qed

lemma str_split_no_sep: "\<not> contains para_sep c \<Longrightarrow> str_split para_sep c = [c]"
proof (induction c)
  case Nil
  then show ?case by simp
next
  case (Cons x xs)
  then show ?case by (simp add: para_sep_def)
qed

lemma good_chunk_last: "good_chunk c \<Longrightarrow> last c \<noteq> CHR ''\<newline>''"
  by (metis good_chunk_def strip_last isspace_newline)

lemma str_split_join_good:
  "cs \<noteq> [] \<Longrightarrow> list_all good_chunk cs \<Longrightarrow> str_split para_sep (str_join para_sep cs) = cs"
proof (induction para_sep cs rule: str_join.induct)
  case 1
  then show ?case by simp
next
  case (2 x)
  then show ?case by (simp add: str_split_no_sep good_chunk_def)
next
  case (3 x y ys)
  have "str_split para_sep (x @ para_sep @ str_join para_sep (y # ys)) =
        x # str_split para_sep (str_join para_sep (y # ys))"
    using 3 good_chunk_last [of x] by (intro str_split_good_prefix) (auto simp: good_chunk_def)
  then show ?case using 3 by simp
qed

lemma str_split_hd_prefix: "str_split sep s = p # ps \<Longrightarrow> \<exists>r. s = p @ r"
proof (induction sep s arbitrary: p ps rule: str_split.induct)
  case (1 sep)
  then show ?case by simp
next
  case (2 sep c cs)
  show ?case
  proof (cases "sep \<noteq> [] \<and> take (length sep) (c # cs) = sep")
    case True
    then have "p = []" using "2.prems" by simp
    then show ?thesis by simp
  next
    case False
    obtain p' ps' where sp: "str_split sep cs = p' # ps'"
      using str_split_not_Nil by (cases "str_split sep cs") auto
    then have "p = c # p'" using False "2.prems" by auto
    moreover obtain r where "cs = p' @ r" using "2.IH"(2) [OF False sp] by auto
    ultimately show ?thesis by simp
  qed
qed

lemma split_piece_no_sep:
  "sep \<noteq> [] \<Longrightarrow> p \<in> set (str_split sep s) \<Longrightarrow> \<not> contains sep p"
proof (induction sep s arbitrary: p rule: str_split.induct)
  case (1 sep)
  then show ?case by simp
next
  case (2 sep c cs)
  show ?case
  proof (cases "sep \<noteq> [] \<and> take (length sep) (c # cs) = sep")
    case True
    then have "p = [] \<or> p \<in> set (str_split sep (drop (length sep) (c # cs)))"
      using "2.prems" by auto
    then show ?thesis using "2.IH"(1) [OF True] "2.prems"(1) by auto
  next
    case False
    obtain p' ps' where sp: "str_split sep cs = p' # ps'"
      using str_split_not_Nil by (cases "str_split sep cs") auto
    obtain r where r: "cs = p' @ r" using str_split_hd_prefix [OF sp] by auto
    have mem: "p = c # p' \<or> p \<in> set ps'" using False "2.prems" sp by auto
    have ih: "\<And>q. q \<in> set (p' # ps') \<Longrightarrow> \<not> contains sep q"
      using "2.IH"(2) [OF False "2.prems"(1)] sp by simp
    have nt: "take (length sep) (c # cs) \<noteq> sep" using False "2.prems"(1) by simp
    have "take (length sep) (c # p') \<noteq> sep"
    proof
      assume t: "take (length sep) (c # p') = sep"
      have "length (take (length sep) (c # p')) = min (length (c # p')) (length sep)"
        by (simp only: length_take)
      then have "length sep \<le> length (c # p')"
        unfolding t by linarith
      then have "take (length sep) ((c # p') @ r) = take (length sep) (c # p')"
        by (simp only: take_append) simp
      then show False using nt t r by simp
    qed
    then have "\<not> contains sep (c # p')" using ih [of p'] by simp
    then show ?thesis using mem ih by auto
  qed
qed

lemma split_all_pieces:
  "\<forall>p\<in>set (str_split sep s). \<forall>c\<in>set p. P c \<Longrightarrow> \<forall>c\<in>set sep. P c \<Longrightarrow> \<forall>c\<in>set s. P c"
proof (induction sep s rule: str_split.induct)
  case (1 sep)
  then show ?case by simp
next
  case (2 sep c cs)
  show ?case
  proof (cases "sep \<noteq> [] \<and> take (length sep) (c # cs) = sep")
    case True
    have eq: "str_split sep (c # cs) = [] # str_split sep (drop (length sep) (c # cs))"
      using True by simp
    have "\<forall>p\<in>set (str_split sep (drop (length sep) (c # cs))). \<forall>c\<in>set p. P c"
      using "2.prems"(1) unfolding eq by simp
    then have r: "\<forall>c\<in>set (drop (length sep) (c # cs)). P c"
      using "2.IH"(1) [OF True _ "2.prems"(2)] by blast
    have "c # cs = sep @ drop (length sep) (c # cs)"
      using True by (metis append_take_drop_id)
    then have "set (c # cs) = set sep \<union> set (drop (length sep) (c # cs))"
      by (metis set_append)
    then show ?thesis using r "2.prems"(2) by blast
  next
    case False
    obtain p' ps' where sp: "str_split sep cs = p' # ps'"
      using str_split_not_Nil by (cases "str_split sep cs") auto
    have eq: "str_split sep (c # cs) = (c # p') # ps'"
      using False sp by simp
    have pc: "P c" and rest: "\<forall>p\<in>set (str_split sep cs). \<forall>c\<in>set p. P c"
      using "2.prems"(1) unfolding eq sp by simp_all
    have "\<forall>c\<in>set cs. P c"
      using "2.IH"(2) [OF False rest "2.prems"(2)] .
    then show ?thesis using pc by simp
  qed
qed

lemma split_all_space:
  "\<forall>p\<in>set (str_split para_sep s). \<forall>c\<in>set p. isspace c \<Longrightarrow> \<forall>c\<in>set s. isspace c"
  by (erule split_all_pieces) (simp add: para_sep_def isspace_newline)

subsection \<open>Re-chunking the joined chunks\<close>

text \<open>
  Claim C8. Whenever chunking a text succeeds, joining the chunks with the blank-line
  separator \<^verbatim>\<open>"\n\n"\<close> and chunking again succeeds with the same chunks in the same
  order; and every chunk is non-empty, has no leading or trailing whitespace left to
  strip, and holds no blank-line separator.
\<close>

theorem chunk_idempotent:
  assumes "chunk_by_paragraphs text = Inr cs"
  shows "chunk_by_paragraphs (str_join para_sep cs) = Inr cs \<and>
         (\<forall>c\<in>set cs. c \<noteq> [] \<and> strip c = c \<and> \<not> contains para_sep c)"
proof -
  have ne: "strip text \<noteq> []"
    and cs: "cs = map strip (filter (\<lambda>chunk. strip chunk \<noteq> []) (str_split para_sep text))"
    using assms by (auto simp: chunk_by_paragraphs_def split: if_splits)
  have good: "list_all good_chunk cs"
  proof -
    have "good_chunk (strip p)" if "p \<in> set (str_split para_sep text)" "strip p \<noteq> []" for p
    proof -
      have "\<not> contains para_sep (strip p)"
        using split_piece_no_sep [OF _ that(1)] strip_no_sep by (simp add: para_sep_def)
      moreover have "strip (strip p) = strip p"
        using strip_id [OF that(2) strip_hd [OF that(2)] strip_last [OF that(2)]] .
      ultimately show ?thesis using that(2) by (simp add: good_chunk_def)
    qed
    then show ?thesis by (auto simp: cs list_all_iff)
  qed
  have cne: "cs \<noteq> []"
  proof
    assume "cs = []"
    then have "\<forall>p\<in>set (str_split para_sep text). strip p = []"
      by (auto simp: cs filter_empty_conv)
    then have "\<forall>c\<in>set text. isspace c"
      by (intro split_all_space) (simp add: strip_empty_iff)
    then show False using ne by (simp add: strip_empty_iff)
  qed
  have sp: "str_split para_sep (str_join para_sep cs) = cs"
    using str_split_join_good [OF cne good] .
  have fl: "filter (\<lambda>chunk. strip chunk \<noteq> []) cs = cs"
    using good by (auto simp: list_all_iff good_chunk_def filter_id_conv)
  have mp: "map strip cs = cs"
    using good by (auto simp: list_all_iff good_chunk_def map_idI)
  obtain c0 cr where c0: "cs = c0 # cr" using cne by (cases cs) auto
  then have "good_chunk c0" using good by simp
  then have "c0 \<noteq> []" "\<not> isspace (hd c0)"
    using strip_hd [of c0] by (auto simp: good_chunk_def)
  then have "hd c0 \<in> set (str_join para_sep cs)" "\<not> isspace (hd c0)"
    unfolding c0 by (cases cr; simp)+
  then have jne: "strip (str_join para_sep cs) \<noteq> []" "str_join para_sep cs \<noteq> []"
    by (auto simp: strip_empty_iff)
  have "chunk_by_paragraphs (str_join para_sep cs) = Inr cs"
    using jne by (simp add: chunk_by_paragraphs_def sp fl mp)
  then show ?thesis using good by (auto simp: list_all_iff good_chunk_def)
qed

theorem chunk_idempotent_witness:
  "chunk_by_paragraphs ''  one\<newline>\<newline>\<newline>two \<newline>\<newline>'' = Inr [''one'', ''two''] \<and>
   chunk_by_paragraphs (str_join para_sep [''one'', ''two'']) = Inr [''one'', ''two''] \<and>
   strip ''two'' = ''two'' \<and> \<not> contains para_sep ''two''"
proof -
  have c: "chunk_by_paragraphs ''  one\<newline>\<newline>\<newline>two \<newline>\<newline>'' = Inr [''one'', ''two'']"
    by (simp add: chunk_by_paragraphs_def para_sep_def strip_def lstrip_def rstrip_def isspace_def)
  show ?thesis using c chunk_idempotent [OF c] by simp
qed

subsection \<open>The chunks are the paragraphs between empty lines\<close>

lemma split_at_not_Nil: "split_at P xs \<noteq> []"
  by (induction xs) (auto split: list.splits)

lemma split_at_append:
  "P s \<Longrightarrow> split_at P (xs @ s # ys) = split_at P xs @ split_at P ys"
proof (induction xs)
  case Nil
  then show ?case by simp
next
  case (Cons x xs)
  obtain g gs where g: "split_at P xs = g # gs"
    using split_at_not_Nil by (cases "split_at P xs") auto
  show ?case using Cons g by simp
qed

lemma split_at_none: "\<forall>x\<in>set xs. \<not> P x \<Longrightarrow> split_at P xs = [xs]"
  by (induction xs) auto

lemma str_join_Cons_head: "str_join sep ((c # g) # gs) = c # str_join sep (g # gs)"
  by (cases gs) auto

lemma str_join_Nil_head: "gs \<noteq> [] \<Longrightarrow> str_join sep ([] # gs) = sep @ str_join sep gs"
  by (cases gs) auto


lemma join_text_lines: "str_join ''\<newline>'' (text_lines s) = s"
proof (induction s)
  case Nil
  then show ?case by (simp add: text_lines_def)
next
  case (Cons c cs)
  obtain g gs where g: "text_lines cs = g # gs"
    using split_at_not_Nil unfolding text_lines_def by (cases "split_at (\<lambda>c. c = CHR ''\<newline>'') cs") auto
  show ?case
  proof (cases "c = CHR ''\<newline>''")
    case True
    then have "text_lines (c # cs) = [] # text_lines cs" by (simp add: text_lines_def)
    then show ?thesis using Cons g True by (simp add: str_join_Nil_head)
  next
    case False
    then have "text_lines (c # cs) = (c # g) # gs" using g by (simp add: text_lines_def)
    then show ?thesis using Cons g by (simp add: str_join_Cons_head)
  qed
qed

lemma join_str_split: "str_join para_sep (str_split para_sep s) = s"
proof (induction para_sep s rule: str_split.induct)
  case 1
  then show ?case by simp
next
  case (2 c cs)
  show ?case
  proof (cases "take (length para_sep) (c # cs) = para_sep")
    case True
    have ne: "para_sep \<noteq> []" by (simp add: para_sep_def)
    have eq: "str_split para_sep (c # cs) = [] # str_split para_sep (drop (length para_sep) (c # cs))"
      using True ne by simp
    have "str_join para_sep (str_split para_sep (drop (length para_sep) (c # cs)))
          = drop (length para_sep) (c # cs)"
      using "2.hyps"(1) True ne by simp
    then have "str_join para_sep (str_split para_sep (c # cs))
          = para_sep @ drop (length para_sep) (c # cs)"
      unfolding eq by (simp add: str_join_Nil_head str_split_not_Nil)
    also have "\<dots> = c # cs" using True by (metis append_take_drop_id)
    finally show ?thesis .
  next
    case False
    obtain p ps where p: "str_split para_sep cs = p # ps"
      using str_split_not_Nil by (cases "str_split para_sep cs") auto
    have eq: "str_split para_sep (c # cs) = (c # p) # ps" using False p by simp
    have "str_join para_sep (p # ps) = cs" using "2.hyps"(2) False p by simp
    then show ?thesis unfolding eq by (simp add: str_join_Cons_head)
  qed
qed


lemma text_lines_newline: "text_lines (CHR ''\<newline>'' # s) = [] # text_lines s"
  by (simp add: text_lines_def)

lemma text_lines_append_newline:
  "text_lines (u @ CHR ''\<newline>'' # v) = text_lines u @ text_lines v"
  unfolding text_lines_def by (rule split_at_append) simp

lemma groups_append:
  "split_at empty_line (text_lines (u @ para_sep @ v)) =
   split_at empty_line (text_lines u) @ split_at empty_line (text_lines v)"
proof -
  have "text_lines (u @ para_sep @ v) = text_lines u @ [] # text_lines v"
    by (simp add: para_sep_def text_lines_append_newline text_lines_newline)
  then show ?thesis by (simp add: split_at_append empty_line_def)
qed

lemma spec_chunks_append:
  "spec_chunks empty_line (u @ para_sep @ v) =
   spec_chunks empty_line u @ spec_chunks empty_line v"
  by (simp add: spec_chunks_def paragraphs_def groups_append)

lemma spec_chunks_join:
  "ps \<noteq> [] \<Longrightarrow>
   spec_chunks empty_line (str_join para_sep ps) = concat (map (spec_chunks empty_line) ps)"
proof (induction para_sep ps rule: str_join.induct)
  case 1
  then show ?case by simp
next
  case (2 x)
  then show ?case by simp
next
  case (3 x y ys)
  then show ?case by (simp add: spec_chunks_append)
qed

lemma spec_chunks_newline_head:
  "spec_chunks empty_line (CHR ''\<newline>'' # s) = spec_chunks empty_line s"
  by (simp add: spec_chunks_def paragraphs_def text_lines_newline empty_line_def)

lemma spec_chunks_newline_last:
  "spec_chunks empty_line (s @ [CHR ''\<newline>'']) = spec_chunks empty_line s"
proof -
  have "text_lines (s @ [CHR ''\<newline>'']) = text_lines s @ [[]]"
    using text_lines_append_newline [of s "[]"] by (simp add: text_lines_def)
  then have "split_at empty_line (text_lines (s @ [CHR ''\<newline>''])) =
             split_at empty_line (text_lines s) @ [[]]"
    using split_at_append [of empty_line "[]" "text_lines s" "[]"] by (simp add: empty_line_def)
  then show ?thesis by (simp add: spec_chunks_def paragraphs_def)
qed

lemma strip_newline_head: "strip (CHR ''\<newline>'' # s) = strip s"
  by (simp add: strip_def lstrip_def isspace_newline)

lemma strip_newline_last: "strip (s @ [CHR ''\<newline>'']) = strip s"
proof (cases "\<forall>c\<in>set s. isspace c")
  case True
  then have "strip (s @ [CHR ''\<newline>'']) = []" "strip s = []"
    by (simp_all add: strip_empty_iff isspace_newline)
  then show ?thesis by simp
next
  case False
  then have "lstrip (s @ [CHR ''\<newline>'']) = lstrip s @ [CHR ''\<newline>'']"
    by (auto simp: lstrip_def dropWhile_append1)
  then show ?thesis by (simp add: strip_def rstrip_def isspace_newline)
qed

lemma contains_para_sep_Cons:
  "contains para_sep (c # cs) \<longleftrightarrow>
     (c = CHR ''\<newline>'' \<and> cs \<noteq> [] \<and> hd cs = CHR ''\<newline>'') \<or> contains para_sep cs"
  by (cases cs) (auto simp: para_sep_def)

lemma lines_of_piece:
  "s \<noteq> [] \<Longrightarrow> last s \<noteq> CHR ''\<newline>'' \<Longrightarrow> \<not> contains para_sep s \<Longrightarrow>
   [] \<notin> set (tl (text_lines s)) \<and> (hd s \<noteq> CHR ''\<newline>'' \<longrightarrow> hd (text_lines s) \<noteq> [])"
proof (induction s)
  case Nil
  then show ?case by simp
next
  case (Cons c cs)
  show ?case
  proof (cases "cs = []")
    case True
    then show ?thesis using Cons.prems by (simp add: text_lines_def)
  next
    case False
    have nc: "\<not> contains para_sep cs" and nn: "\<not> (c = CHR ''\<newline>'' \<and> hd cs = CHR ''\<newline>'')"
      using Cons.prems(3) False unfolding contains_para_sep_Cons by auto
    have ih: "[] \<notin> set (tl (text_lines cs))"
      "hd cs \<noteq> CHR ''\<newline>'' \<Longrightarrow> hd (text_lines cs) \<noteq> []"
      using Cons.IH [OF False _ nc] Cons.prems(2) False by auto
    obtain g gs where g: "text_lines cs = g # gs"
      using split_at_not_Nil unfolding text_lines_def
      by (cases "split_at (\<lambda>c. c = CHR ''\<newline>'') cs") auto
    show ?thesis
    proof (cases "c = CHR ''\<newline>''")
      case True
      then have "hd cs \<noteq> CHR ''\<newline>''" using nn by simp
      then have "g \<noteq> []" using ih(2) g by simp
      then show ?thesis using True ih(1) g by (simp add: text_lines_newline)
    next
      case False
      then have "text_lines (c # cs) = (c # g) # gs" using g by (simp add: text_lines_def)
      then show ?thesis using ih(1) g by simp
    qed
  qed
qed

lemma spec_chunks_core:
  assumes "s \<noteq> []" "hd s \<noteq> CHR ''\<newline>''" "last s \<noteq> CHR ''\<newline>''"
    "\<not> contains para_sep s"
  shows "spec_chunks empty_line s = filter (\<lambda>c. c \<noteq> []) [strip s]"
proof -
  obtain g gs where g: "text_lines s = g # gs"
    using split_at_not_Nil unfolding text_lines_def
    by (cases "split_at (\<lambda>c. c = CHR ''\<newline>'') s") auto
  have "[] \<notin> set (text_lines s)"
    using lines_of_piece [OF assms(1,3,4)] assms(2) g by auto
  then have "split_at empty_line (text_lines s) = [text_lines s]"
    by (intro split_at_none) (auto simp: empty_line_def)
  then have "paragraphs empty_line s = [s]"
    using g by (simp add: paragraphs_def join_text_lines [of s, unfolded g])
  then show ?thesis by (simp add: spec_chunks_def)
qed

lemma spec_chunks_empty: "spec_chunks empty_line [] = filter (\<lambda>c. c \<noteq> []) [strip []]"
  by (simp add: spec_chunks_def paragraphs_def text_lines_def empty_line_def strip_def
        lstrip_def rstrip_def)

lemma spec_chunks_no_head:
  assumes "s = [] \<or> hd s \<noteq> CHR ''\<newline>''" "\<not> contains para_sep s"
  shows "spec_chunks empty_line s = filter (\<lambda>c. c \<noteq> []) [strip s]"
proof (cases "s = []")
  case True
  then show ?thesis using spec_chunks_empty by simp
next
  case False
  note ne = False
  show ?thesis
  proof (cases "last s = CHR ''\<newline>''")
    case False
    then show ?thesis using spec_chunks_core ne assms by simp
  next
    case True
    then obtain q where q: "s = q @ [CHR ''\<newline>'']"
      using ne by (metis append_butlast_last_id)
    have red: "spec_chunks empty_line s = spec_chunks empty_line q" "strip s = strip q"
      unfolding q by (rule spec_chunks_newline_last, rule strip_newline_last)
    show ?thesis
    proof (cases "q = []")
      case True
      then show ?thesis using red spec_chunks_empty by simp
    next
      case False
      have hq: "hd q \<noteq> CHR ''\<newline>''" using assms(1) ne False q by simp
      have nq: "\<not> contains para_sep q" using assms(2) q contains_appendD by blast
      have lq: "last q \<noteq> CHR ''\<newline>''"
      proof
        assume "last q = CHR ''\<newline>''"
        then have "q = butlast q @ [CHR ''\<newline>'']"
          using False by (metis append_butlast_last_id)
        then have "s = butlast q @ para_sep @ []"
          unfolding q by (simp add: para_sep_def)
        then show False using assms(2) contains_iff by blast
      qed
      show ?thesis using red spec_chunks_core [OF False hq lq nq] by simp
    qed
  qed
qed

lemma spec_chunks_piece:
  assumes "\<not> contains para_sep s"
  shows "spec_chunks empty_line s = filter (\<lambda>c. c \<noteq> []) [strip s]"
proof (cases "s \<noteq> [] \<and> hd s = CHR ''\<newline>''")
  case False
  then show ?thesis using spec_chunks_no_head assms by blast
next
  case True
  then obtain q where q: "s = CHR ''\<newline>'' # q" by (cases s) auto
  have nq: "\<not> contains para_sep q" "q = [] \<or> hd q \<noteq> CHR ''\<newline>''"
    using assms unfolding q contains_para_sep_Cons by auto
  show ?thesis
    unfolding q spec_chunks_newline_head strip_newline_head
    using spec_chunks_no_head [OF nq(2) nq(1)] .
qed

lemma concat_singletons:
  "concat (map (\<lambda>p. filter (\<lambda>c. c \<noteq> []) [f p]) xs) = map f (filter (\<lambda>p. f p \<noteq> []) xs)"
  by (induction xs) auto

lemma spec_chunks_eq_code:
  "spec_chunks empty_line s =
   map strip (filter (\<lambda>chunk. strip chunk \<noteq> []) (str_split para_sep s))"
proof -
  let ?ps = "str_split para_sep s"
  have pieces: "\<And>p. p \<in> set ?ps \<Longrightarrow> \<not> contains para_sep p"
    using split_piece_no_sep [of para_sep] by (simp add: para_sep_def)
  have "spec_chunks empty_line s = spec_chunks empty_line (str_join para_sep ?ps)"
    by (simp add: join_str_split)
  also have "\<dots> = concat (map (spec_chunks empty_line) ?ps)"
    by (rule spec_chunks_join) (rule str_split_not_Nil)
  also have "\<dots> = concat (map (\<lambda>p. filter (\<lambda>c. c \<noteq> []) [strip p]) ?ps)"
    using pieces spec_chunks_piece by (intro arg_cong [where f = concat] map_cong) auto
  also have "\<dots> = map strip (filter (\<lambda>chunk. strip chunk \<noteq> []) ?ps)"
    by (rule concat_singletons)
  finally show ?thesis .
qed

subsection \<open>PDF text: the normalisation turns blank lines into empty lines\<close>

lemma split_at_snoc:
  "split_at P (xs @ [x]) =
     (if P x then split_at P xs @ [[]]
      else butlast (split_at P xs) @ [last (split_at P xs) @ [x]])"
proof (induction xs)
  case Nil
  then show ?case by simp
next
  case (Cons y ys)
  obtain g gs where g: "split_at P ys = g # gs"
    using split_at_not_Nil by (cases "split_at P ys") auto
  obtain h hs where h: "split_at P (ys @ [x]) = h # hs"
    using split_at_not_Nil by (cases "split_at P (ys @ [x])") auto
  show ?case
  proof (cases "P x")
    case True
    then show ?thesis using Cons g by simp
  next
    case False
    then have eq: "h # hs = butlast (g # gs) @ [last (g # gs) @ [x]]"
      using Cons g h by simp
    show ?thesis
    proof (cases gs)
      case Nil
      then show ?thesis using False eq g h by auto
    next
      case (Cons g' gs')
      then show ?thesis using False eq g h by auto
    qed
  qed
qed

lemma text_lines_snoc:
  "text_lines (s @ [c]) =
     (if c = CHR ''\<newline>'' then text_lines s @ [[]]
      else butlast (text_lines s) @ [last (text_lines s) @ [c]])"
  unfolding text_lines_def by (rule split_at_snoc)

lemma text_lines_not_Nil: "text_lines s \<noteq> []"
  by (simp add: text_lines_def split_at_not_Nil)

lemma text_lines_no_newline: "CHR ''\<newline>'' \<notin> set s \<Longrightarrow> text_lines s = [s]"
  unfolding text_lines_def by (rule split_at_none) auto

lemma blank_line_Cons: "blank_line (c # l) \<longleftrightarrow> isspace c \<and> blank_line l"
  by (simp add: blank_line_def)

lemma blank_line_iff: "blank_line l \<longleftrightarrow> (\<forall>c\<in>set l. isspace c)"
  by (simp add: blank_line_def list_all_iff)

lemma strip_space_head: "isspace c \<Longrightarrow> strip (c # s) = strip s"
  by (simp add: strip_def lstrip_def)

lemma strip_space_prefix: "\<forall>c\<in>set w. isspace c \<Longrightarrow> strip (w @ s) = strip s"
  by (induction w) (simp_all add: strip_space_head)

lemma strip_space_last: "isspace c \<Longrightarrow> strip (s @ [c]) = strip s"
proof (cases "\<forall>c\<in>set s. isspace c")
  case True
  assume "isspace c"
  then have "strip (s @ [c]) = []" "strip s = []"
    using True by (simp_all add: strip_empty_iff)
  then show ?thesis by simp
next
  case False
  assume c: "isspace c"
  have "lstrip (s @ [c]) = lstrip s @ [c]"
    using False by (auto simp: lstrip_def dropWhile_append1)
  then show ?thesis using c by (simp add: strip_def rstrip_def)
qed

lemma strip_space_suffix: "\<forall>c\<in>set w. isspace c \<Longrightarrow> strip (s @ w) = strip s"
proof (induction w rule: rev_induct)
  case Nil
  then show ?case by simp
next
  case (snoc c w)
  have "strip (s @ w @ [c]) = strip ((s @ w) @ [c])" by simp
  also have "\<dots> = strip (s @ w)" using snoc.prems by (intro strip_space_last) simp
  finally show ?case using snoc by simp
qed

lemma blank_chunks_space_head:
  assumes "isspace c"
  shows "spec_chunks blank_line (c # s) = spec_chunks blank_line s"
proof (cases "c = CHR ''\<newline>''")
  case True
  then show ?thesis
    by (simp add: spec_chunks_def paragraphs_def text_lines_newline blank_line_def)
next
  case False
  obtain g gs where g: "text_lines s = g # gs"
    using text_lines_not_Nil by (cases "text_lines s") auto
  have l: "text_lines (c # s) = (c # g) # gs" using False g by (simp add: text_lines_def)
  show ?thesis
  proof (cases "blank_line g")
    case True
    then show ?thesis using assms
      by (simp add: spec_chunks_def paragraphs_def l g blank_line_Cons)
  next
    case False
    obtain G Gs where G: "split_at blank_line gs = G # Gs"
      using split_at_not_Nil by (cases "split_at blank_line gs") auto
    show ?thesis using assms False
      by (simp add: spec_chunks_def paragraphs_def l g G blank_line_Cons str_join_Cons_head
            strip_space_head)
  qed
qed

lemma blank_chunks_space_prefix:
  "\<forall>c\<in>set w. isspace c \<Longrightarrow> spec_chunks blank_line (w @ s) = spec_chunks blank_line s"
  by (induction w) (simp_all add: blank_chunks_space_head)

lemma blank_chunks_match:
  assumes ws: "\<forall>c\<in>set W. isspace c" and nl: "CHR ''\<newline>'' \<in> set W"
  shows "spec_chunks blank_line (u @ CHR ''\<newline>'' # W @ rest) =
         spec_chunks blank_line u @ spec_chunks blank_line rest"
proof -
  let ?W1 = "takeWhile (\<lambda>c. c \<noteq> CHR ''\<newline>'') W"
  let ?D = "dropWhile (\<lambda>c. c \<noteq> CHR ''\<newline>'') W"
  have "?D \<noteq> []" using nl by (simp add: dropWhile_eq_Nil_conv)
  moreover have "hd ?D = CHR ''\<newline>''" using hd_dropWhile [OF \<open>?D \<noteq> []\<close>] by simp
  ultimately obtain W2 where D: "?D = CHR ''\<newline>'' # W2" by (cases ?D) auto
  have W: "W = ?W1 @ CHR ''\<newline>'' # W2" using D by (metis takeWhile_dropWhile_id)
  have w1: "\<forall>c\<in>set ?W1. isspace c" using ws by (meson set_takeWhileD)
  have w2: "\<forall>c\<in>set W2. isspace c" using ws W by (metis Un_iff list.set_intros(2) set_append)
  have n1: "CHR ''\<newline>'' \<notin> set ?W1" by (auto dest: set_takeWhileD)
  have "text_lines (u @ CHR ''\<newline>'' # W @ rest) =
        text_lines u @ text_lines (?W1 @ CHR ''\<newline>'' # W2 @ rest)"
    using text_lines_append_newline [of u "W @ rest"] W by (metis append_Cons append_assoc)
  also have "\<dots> = text_lines u @ ?W1 # text_lines (W2 @ rest)"
    by (simp add: text_lines_append_newline text_lines_no_newline [OF n1])
  finally have "split_at blank_line (text_lines (u @ CHR ''\<newline>'' # W @ rest)) =
        split_at blank_line (text_lines u) @ split_at blank_line (text_lines (W2 @ rest))"
    using w1 by (simp add: split_at_append blank_line_iff)
  then have "spec_chunks blank_line (u @ CHR ''\<newline>'' # W @ rest) =
        spec_chunks blank_line u @ spec_chunks blank_line (W2 @ rest)"
    by (simp add: spec_chunks_def paragraphs_def)
  then show ?thesis using blank_chunks_space_prefix [OF w2] by simp
qed


lemma str_join_Cons: "xs \<noteq> [] \<Longrightarrow> str_join sep (x # xs) = x @ sep @ str_join sep xs"
  by (cases xs) auto

lemma str_join_snoc: "xs \<noteq> [] \<Longrightarrow> str_join sep (xs @ [y]) = str_join sep xs @ sep @ y"
proof (induction sep xs rule: str_join.induct)
  case (1 sep)
  then show ?case by simp
next
  case (2 sep x)
  then show ?case by simp
next
  case (3 sep x z zs)
  then show ?case by simp
qed

lemma blank_chunks_one_line:
  "spec_chunks blank_line (str_join ''\<newline>'' [l]) = filter (\<lambda>c. c \<noteq> []) [strip l]"
  if "text_lines l = [l]"
proof (cases "blank_line l")
  case True
  then have "strip l = []" by (simp add: strip_empty_iff blank_line_iff)
  then show ?thesis using True that by (simp add: spec_chunks_def paragraphs_def)
next
  case False
  then show ?thesis using that by (simp add: spec_chunks_def paragraphs_def)
qed

lemma groups_of_segment:
  assumes mid: "\<forall>l\<in>set mid. \<not> blank_line l"
  shows "filter (\<lambda>g. g \<noteq> []) (split_at blank_line (l0 # mid @ [lk])) =
     (if blank_line l0 then (if blank_line lk then (if mid = [] then [] else [mid]) else [mid @ [lk]])
      else (if blank_line lk then [l0 # mid] else [l0 # mid @ [lk]]))"
proof -
  have m: "split_at blank_line mid = [mid]" using mid by (intro split_at_none) simp
  have t: "split_at blank_line (mid @ [lk]) = (if blank_line lk then [mid, []] else [mid @ [lk]])"
    by (simp add: split_at_snoc m)
  show ?thesis by (simp add: t)
qed

lemma blank_chunks_segment:
  assumes "no_inner_blank s"
  shows "spec_chunks blank_line s = filter (\<lambda>c. c \<noteq> []) [strip s]"
proof -
  obtain l0 rest where ls: "text_lines s = l0 # rest"
    using text_lines_not_Nil by (cases "text_lines s") auto
  have js: "str_join ''\<newline>'' (l0 # rest) = s" using join_text_lines [of s] ls by simp
  show ?thesis
  proof (cases "rest = []")
    case True
    then have "s = l0" using js by simp
    then show ?thesis using blank_chunks_one_line [of l0] ls True by simp
  next
    case False
    then obtain mid lk where rest: "rest = mid @ [lk]" by (metis append_butlast_last_id)
    have mid: "\<forall>l\<in>set mid. \<not> blank_line l"
      using assms by (simp add: no_inner_blank_def ls rest list_all_iff)
    have sp: "spec_chunks blank_line s = filter (\<lambda>c. c \<noteq> [])
        (map strip (map (str_join ''\<newline>'')
           (filter (\<lambda>g. g \<noteq> []) (split_at blank_line (l0 # mid @ [lk])))))"
      by (simp add: spec_chunks_def paragraphs_def ls rest)
    have s1: "s = l0 @ ''\<newline>'' @ str_join ''\<newline>'' (mid @ [lk])"
      using js rest by (simp add: str_join_Cons)
    have s2: "s = str_join ''\<newline>'' (l0 # mid) @ ''\<newline>'' @ lk"
      using js rest str_join_snoc [of "l0 # mid" "''\<newline>''" lk] by simp
    show ?thesis
    proof (cases "blank_line l0")
      case True
      note b0 = True
      have w0: "\<forall>c\<in>set (l0 @ ''\<newline>''). isspace c"
        using b0 by (auto simp: blank_line_iff isspace_newline)
      have st: "strip s = strip (str_join ''\<newline>'' (mid @ [lk]))"
        using strip_space_prefix [OF w0, of "str_join ''\<newline>'' (mid @ [lk])"] s1 by simp
      show ?thesis
      proof (cases "blank_line lk")
        case False
        then show ?thesis unfolding sp groups_of_segment [OF mid] using b0 st by simp
      next
        case True
        note bk = True
        have wk: "\<forall>c\<in>set (''\<newline>'' @ lk). isspace c"
          using bk by (auto simp: blank_line_iff isspace_newline)
        show ?thesis
        proof (cases "mid = []")
          case True
          then have "strip s = []" using st bk by (simp add: strip_empty_iff blank_line_iff)
          then show ?thesis unfolding sp groups_of_segment [OF mid] using b0 bk True by simp
        next
          case False
          have "str_join ''\<newline>'' (mid @ [lk]) = str_join ''\<newline>'' mid @ ''\<newline>'' @ lk"
            using False by (rule str_join_snoc)
          then have "strip s = strip (str_join ''\<newline>'' mid)"
            using st strip_space_suffix [OF wk, of "str_join ''\<newline>'' mid"] by simp
          then show ?thesis unfolding sp groups_of_segment [OF mid] using b0 bk False by simp
        qed
      qed
    next
      case False
      note b0 = False
      show ?thesis
      proof (cases "blank_line lk")
        case False
        then show ?thesis unfolding sp groups_of_segment [OF mid] using b0 js rest by simp
      next
        case True
        have wk: "\<forall>c\<in>set (''\<newline>'' @ lk). isspace c"
          using True by (auto simp: blank_line_iff isspace_newline)
        have "strip s = strip (str_join ''\<newline>'' (l0 # mid))"
          using s2 strip_space_suffix [OF wk, of "str_join ''\<newline>'' (l0 # mid)"] by simp
        then show ?thesis unfolding sp groups_of_segment [OF mid] using b0 True by simp
      qed
    qed
  qed
qed


lemma no_inner_blank_Nil: "no_inner_blank []" "\<not> ends_blank []"
  by (simp_all add: no_inner_blank_def ends_blank_def text_lines_def)

lemma no_inner_blank_no_sep:
  assumes "no_inner_blank s"
  shows "\<not> contains para_sep s"
proof
  assume "contains para_sep s"
  then obtain a b where s: "s = a @ para_sep @ b" using contains_iff by blast
  obtain A0 A where A: "text_lines a = A0 # A"
    using text_lines_not_Nil by (cases "text_lines a") auto
  obtain B Bk where B: "text_lines b = B @ [Bk]"
    using text_lines_not_Nil by (metis append_butlast_last_id)
  have "text_lines s = text_lines a @ [] # text_lines b"
    unfolding s by (simp add: para_sep_def text_lines_append_newline text_lines_newline)
  then have "butlast (tl (text_lines s)) = A @ [] # B"
    by (simp add: A B butlast_append)
  then show False using assms by (simp add: no_inner_blank_def blank_line_def)
qed

lemma invariant_step:
  assumes nib: "no_inner_blank u"
    and eb: "ends_blank u \<longrightarrow> CHR ''\<newline>'' \<notin> set (takeWhile isspace (c # cs))"
    and nm: "\<not> (c = CHR ''\<newline>'' \<and> CHR ''\<newline>'' \<in> set (takeWhile isspace cs))"
  shows "no_inner_blank (u @ [c]) \<and>
         (ends_blank (u @ [c]) \<longrightarrow> CHR ''\<newline>'' \<notin> set (takeWhile isspace cs))"
proof -
  obtain l0 rest where ls: "text_lines u = l0 # rest"
    using text_lines_not_Nil by (cases "text_lines u") auto
  show ?thesis
  proof (cases "c = CHR ''\<newline>''")
    case True
    then have neb: "\<not> ends_blank u" using eb by (auto simp: isspace_newline)
    have l: "text_lines (u @ [c]) = text_lines u @ [[]]" using True by (simp add: text_lines_snoc)
    have "butlast (tl (text_lines (u @ [c]))) = rest" unfolding l ls by simp
    moreover have "list_all (\<lambda>l. \<not> blank_line l) rest"
    proof (cases "rest = []")
      case True
      then show ?thesis by simp
    next
      case False
      then have r: "rest = butlast rest @ [last rest]" by simp
      have "Suc 0 \<le> length rest" using False by (cases rest) auto
      then have "\<not> blank_line (last rest)" using neb False by (simp add: ends_blank_def ls)
      moreover have "list_all (\<lambda>l. \<not> blank_line l) (butlast rest)"
        using nib by (simp add: no_inner_blank_def ls)
      ultimately have "list_all (\<lambda>l. \<not> blank_line l) (butlast rest @ [last rest])" by simp
      then show ?thesis using r by simp
    qed
    ultimately have "no_inner_blank (u @ [c])" by (simp add: no_inner_blank_def)
    then show ?thesis using nm True by simp
  next
    case False
    have l: "text_lines (u @ [c]) = butlast (text_lines u) @ [last (text_lines u) @ [c]]"
      using False by (simp add: text_lines_snoc)
    have b: "butlast (tl (text_lines (u @ [c]))) = butlast (tl (text_lines u))"
      unfolding l ls by (cases rest rule: rev_cases) (simp_all add: butlast_append)
    have n: "no_inner_blank (u @ [c])" using nib b by (simp add: no_inner_blank_def)
    have e: "ends_blank (u @ [c]) \<Longrightarrow> ends_blank u \<and> isspace c"
      unfolding ends_blank_def l by (auto simp: blank_line_iff text_lines_not_Nil)
    show ?thesis using n e eb by auto
  qed
qed

lemma empty_chunks_segment:
  "no_inner_blank u \<Longrightarrow> spec_chunks empty_line u = spec_chunks blank_line u"
  using spec_chunks_piece [OF no_inner_blank_no_sep] blank_chunks_segment by simp

lemma normalize_chunks:
  "no_inner_blank u \<Longrightarrow>
   (ends_blank u \<longrightarrow> CHR ''\<newline>'' \<notin> set (takeWhile isspace s)) \<Longrightarrow>
   spec_chunks empty_line (u @ normalize_breaks s) = spec_chunks blank_line (u @ s)"
proof (induction s arbitrary: u rule: normalize_breaks.induct)
  case 1
  then show ?case using empty_chunks_segment by simp
next
  case (2 c cs)
  show ?case
  proof (cases "c = CHR ''\<newline>'' \<and> CHR ''\<newline>'' \<in> set (takeWhile isspace cs)")
    case True
    let ?W = "takeWhile isspace cs" and ?rest = "dropWhile isspace cs"
    have n: "normalize_breaks (c # cs) = para_sep @ normalize_breaks ?rest" using True by simp
    have tw: "takeWhile isspace ?rest = []"
    proof (cases "?rest = []")
      case True
      then show ?thesis by (metis takeWhile.simps(1))
    next
      case False
      then have "\<not> isspace (hd ?rest)" by (rule hd_dropWhile)
      then show ?thesis using False by (cases ?rest) auto
    qed
    have ih: "spec_chunks empty_line (normalize_breaks ?rest) = spec_chunks blank_line ?rest"
      using "2.IH"(1) [OF True, of "[]"] no_inner_blank_Nil tw by simp
    have ws: "\<forall>x\<in>set ?W. isspace x" by (auto dest: set_takeWhileD)
    have "spec_chunks blank_line (u @ c # cs) =
          spec_chunks blank_line (u @ CHR ''\<newline>'' # ?W @ ?rest)"
      using True by simp
    also have "\<dots> = spec_chunks blank_line u @ spec_chunks blank_line ?rest"
      using blank_chunks_match [OF ws] True by blast
    finally show ?thesis
      unfolding n using ih empty_chunks_segment [OF "2.prems"(1)]
      by (simp add: spec_chunks_append)
  next
    case False
    have inv: "no_inner_blank (u @ [c]) \<and>
         (ends_blank (u @ [c]) \<longrightarrow> CHR ''\<newline>'' \<notin> set (takeWhile isspace cs))"
      using invariant_step [OF "2.prems"(1) "2.prems"(2) False] .
    have "spec_chunks empty_line ((u @ [c]) @ normalize_breaks cs) =
          spec_chunks blank_line ((u @ [c]) @ cs)"
      using "2.IH"(2) [OF False] inv by blast
    moreover have "normalize_breaks (c # cs) = c # normalize_breaks cs"
      using False by auto
    ultimately show ?thesis by simp
  qed
qed

lemma normalize_all_space:
  "(\<forall>c\<in>set (normalize_breaks s). isspace c) \<longleftrightarrow> (\<forall>c\<in>set s. isspace c)"
proof (induction s rule: normalize_breaks.induct)
  case 1
  then show ?case by simp
next
  case (2 c cs)
  show ?case
  proof (cases "c = CHR ''\<newline>'' \<and> CHR ''\<newline>'' \<in> set (takeWhile isspace cs)")
    case True
    have "set cs = set (takeWhile isspace cs) \<union> set (dropWhile isspace cs)"
      by (metis set_append takeWhile_dropWhile_id)
    moreover have "\<forall>x\<in>set (takeWhile isspace cs). isspace x" by (auto dest: set_takeWhileD)
    ultimately have "(\<forall>x\<in>set cs. isspace x) \<longleftrightarrow> (\<forall>x\<in>set (dropWhile isspace cs). isspace x)"
      by auto
    then show ?thesis using True "2.IH"(1) [OF True]
      by (simp add: para_sep_def isspace_newline)
  next
    case False
    then show ?thesis using "2.IH"(2) [OF False] by auto
  qed
qed

lemma pdf_chunks:
  "strip s \<noteq> [] \<Longrightarrow>
   chunk_by_paragraphs (normalize_breaks s) = Inr (spec_chunks blank_line s)"
proof -
  assume ne: "strip s \<noteq> []"
  then have "strip (normalize_breaks s) \<noteq> []"
    by (simp add: strip_empty_iff normalize_all_space)
  then have "chunk_by_paragraphs (normalize_breaks s)
        = Inr (spec_chunks empty_line (normalize_breaks s))"
    by (auto simp: chunk_by_paragraphs_def spec_chunks_eq_code strip_def lstrip_def rstrip_def)
  then show ?thesis
    using normalize_chunks [of "[]" s] no_inner_blank_Nil by simp
qed

text \<open>
  Claim C3, as amended. A text without a non-whitespace character is refused. For every
  other text the chunker returns exactly the chunks of the line-based description with
  an empty line (a line of no characters, so two newline characters in a row) as the
  paragraph break: any run of one or more empty lines breaks once, and the result is
  the sequence of the stripped, non-empty paragraphs in source order. For the text of a
  PDF, which \<^verbatim>\<open>_extract_pdf_text\<close> normalises before it is chunked, a line of whitespace
  only is a paragraph break as well: the chunks of the extracted text are those of the
  line-based description of the raw text with blank lines as breaks.
\<close>

theorem chunk_by_empty_lines:
  "(s = [] \<or> strip s = [] \<longrightarrow> chunk_by_paragraphs s = Inl (ValueError ''Cannot chunk empty text'')) \<and>
   (strip s \<noteq> [] \<longrightarrow> chunk_by_paragraphs s = Inr (spec_chunks empty_line s)) \<and>
   (pdf_pages_text env file_path = Inr s \<and> strip s \<noteq> [] \<longrightarrow>
      (\<exists>extracted. extract_pdf_text env file_path = Inr extracted \<and>
         chunk_by_paragraphs extracted = Inr (spec_chunks blank_line s)))"
proof (intro conjI impI)
  assume "s = [] \<or> strip s = []"
  then show "chunk_by_paragraphs s = Inl (ValueError ''Cannot chunk empty text'')"
    by (auto simp: chunk_by_paragraphs_def)
next
  assume "strip s \<noteq> []"
  then show "chunk_by_paragraphs s = Inr (spec_chunks empty_line s)"
    by (auto simp: chunk_by_paragraphs_def spec_chunks_eq_code strip_def lstrip_def rstrip_def)
next
  assume a: "pdf_pages_text env file_path = Inr s \<and> strip s \<noteq> []"
  then have "s \<noteq> []" by (auto simp: strip_def lstrip_def rstrip_def)
  then have "extract_pdf_text env file_path = Inr (normalize_breaks s)"
    using a by (simp add: extract_pdf_text_def)
  then show "\<exists>extracted. extract_pdf_text env file_path = Inr extracted \<and>
         chunk_by_paragraphs extracted = Inr (spec_chunks blank_line s)"
    using pdf_chunks a by blast
qed

theorem chunk_by_empty_lines_witness:
  "strip '' a\<newline>\<newline>\<newline>b\<newline>c\<newline> \<newline>d'' \<noteq> [] \<and>
   spec_chunks empty_line '' a\<newline>\<newline>\<newline>b\<newline>c\<newline> \<newline>d'' = [''a'', ''b\<newline>c\<newline> \<newline>d''] \<and>
   chunk_by_paragraphs '' a\<newline>\<newline>\<newline>b\<newline>c\<newline> \<newline>d'' = Inr [''a'', ''b\<newline>c\<newline> \<newline>d''] \<and>
   pdf_pages_text (example_env [] [] '' a\<newline>\<newline>\<newline>b\<newline>c\<newline> \<newline>d'') ''doc.pdf''
     = Inr '' a\<newline>\<newline>\<newline>b\<newline>c\<newline> \<newline>d'' \<and>
   extract_pdf_text (example_env [] [] '' a\<newline>\<newline>\<newline>b\<newline>c\<newline> \<newline>d'') ''doc.pdf''
     = Inr '' a\<newline>\<newline>b\<newline>c\<newline>\<newline>d'' \<and>
   spec_chunks blank_line '' a\<newline>\<newline>\<newline>b\<newline>c\<newline> \<newline>d'' = [''a'', ''b\<newline>c'', ''d''] \<and>
   chunk_by_paragraphs '' a\<newline>\<newline>b\<newline>c\<newline>\<newline>d'' = Inr [''a'', ''b\<newline>c'', ''d'']"
proof -
  let ?s = "'' a\<newline>\<newline>\<newline>b\<newline>c\<newline> \<newline>d''"
  have n: "strip ?s \<noteq> []"
    by (simp add: strip_def lstrip_def rstrip_def isspace_def)
  have e: "spec_chunks empty_line ?s = [''a'', ''b\<newline>c\<newline> \<newline>d'']"
    by (simp add: spec_chunks_def paragraphs_def text_lines_def empty_line_def
          strip_def lstrip_def rstrip_def isspace_def)
  have b: "spec_chunks blank_line ?s = [''a'', ''b\<newline>c'', ''d'']"
    by (simp add: spec_chunks_def paragraphs_def text_lines_def blank_line_def
          strip_def lstrip_def rstrip_def isspace_def)
  have p: "pdf_pages_text (example_env [] [] ?s) ''doc.pdf'' = Inr ?s"
    by (simp add: example_env_def)
  have x: "extract_pdf_text (example_env [] [] ?s) ''doc.pdf'' = Inr '' a\<newline>\<newline>b\<newline>c\<newline>\<newline>d''"
    by (simp add: extract_pdf_text_def example_env_def para_sep_def isspace_def)
  note t = chunk_by_empty_lines [of ?s "example_env [] [] ?s" "''doc.pdf''"]
  have c1: "chunk_by_paragraphs ?s = Inr (spec_chunks empty_line ?s)"
    using t n by blast
  have c2: "chunk_by_paragraphs '' a\<newline>\<newline>b\<newline>c\<newline>\<newline>d'' = Inr (spec_chunks blank_line ?s)"
    using t n p x by auto
  show ?thesis using n e b p x c1 c2 by simp
qed

text \<open>
  The claim as first stated also takes a line of whitespace only for a blank line. The
  chunker splits at two newline characters in a row and at nothing else: a line that
  holds a space separates no paragraphs.
\<close>

theorem chunk_blank_line_counterexample:
  "chunk_by_paragraphs ''a\<newline> \<newline>b'' = Inr [''a\<newline> \<newline>b''] \<and>
   spec_chunks blank_line ''a\<newline> \<newline>b'' = [''a'', ''b'']"
  by (simp add: chunk_by_paragraphs_def para_sep_def spec_chunks_def paragraphs_def
        text_lines_def blank_line_def strip_def lstrip_def rstrip_def isspace_def)

section \<open>Properties of the cross-query merge\<close>

subsection \<open>The invariant of the loops\<close>

lemma merge_inv_append:
  assumes "merge_inv (f, s)" "s (chunk_text r) = None"
  shows "merge_inv (f @ [r], s(chunk_text r \<mapsto> length f))"
proof -
  have d: "distinct (map chunk_text f)"
    and m: "\<And>ct i. s ct = Some i \<Longrightarrow> i < length f \<and> chunk_text (f ! i) = ct"
    and k: "\<And>x. x \<in> set f \<Longrightarrow> s (chunk_text x) \<noteq> None"
    using assms(1) by (auto simp: merge_inv_def)
  have notin: "chunk_text r \<notin> chunk_text ` set f" using k assms(2) by force
  have 1: "distinct (map chunk_text (f @ [r]))" using d notin by simp
  have 2: "i < length (f @ [r]) \<and> chunk_text ((f @ [r]) ! i) = ct"
    if "(s(chunk_text r \<mapsto> length f)) ct = Some i" for ct i
  proof (cases "ct = chunk_text r")
    case True
    then have "i = length f" using that by simp
    then show ?thesis using True by simp
  next
    case False
    then have "s ct = Some i" using that by simp
    then show ?thesis using m [of ct i] by (simp add: nth_append)
  qed
  have 3: "(s(chunk_text r \<mapsto> length f)) (chunk_text x) \<noteq> None" if "x \<in> set (f @ [r])" for x
    using that k by auto
  show ?thesis unfolding merge_inv_def using 1 2 3 by simp
qed

lemma merge_inv_replace:
  assumes "merge_inv (f, s)" "s (chunk_text r) = Some i"
  shows "merge_inv (f[i := r], s)"
proof -
  have d: "distinct (map chunk_text f)"
    and m: "\<And>ct j. s ct = Some j \<Longrightarrow> j < length f \<and> chunk_text (f ! j) = ct"
    and k: "\<And>x. x \<in> set f \<Longrightarrow> s (chunk_text x) \<noteq> None"
    using assms(1) by (auto simp: merge_inv_def)
  have i: "i < length f" "chunk_text (f ! i) = chunk_text r" using m [OF assms(2)] by auto
  have same: "map chunk_text (f[i := r]) = map chunk_text f"
    using i by (simp add: map_update list_update_same_conv)
  have 1: "distinct (map chunk_text (f[i := r]))" using d same by simp
  have 2: "j < length (f[i := r]) \<and> chunk_text (f[i := r] ! j) = ct" if "s ct = Some j" for ct j
  proof -
    have "j < length f" "chunk_text (f ! j) = ct" using m [OF that] by auto
    moreover have "chunk_text (f[i := r] ! j) = map chunk_text (f[i := r]) ! j"
      using \<open>j < length f\<close> by simp
    ultimately show ?thesis unfolding same by simp
  qed
  have 3: "s (chunk_text x) \<noteq> None" if "x \<in> set (f[i := r])" for x
  proof -
    have "x \<in> insert r (set f)" using that set_update_subset_insert by fastforce
    then show ?thesis using k assms(2) by auto
  qed
  show ?thesis unfolding merge_inv_def using 1 2 3 by simp
qed

lemma merge_round_inv:
  "merge_inv st \<Longrightarrow> merge_inv (merge_round top_k round_index srs st)"
proof (induction srs arbitrary: st)
  case Nil
  then show ?case by (cases st) simp
next
  case (Cons l ls)
  obtain f s where st: "st = (f, s)" by (cases st)
  show ?case
  proof (cases "int (length f) \<ge> top_k \<or> round_index \<ge> length l")
    case True
    then show ?thesis using Cons st by auto
  next
    case False
    let ?r = "l ! round_index"
    show ?thesis
    proof (cases "s (chunk_text ?r)")
      case None
      have "merge_inv (f @ [?r], s(chunk_text ?r \<mapsto> length f))"
        using merge_inv_append Cons.prems st None by blast
      then show ?thesis using False st None Cons.IH by (simp add: Let_def)
    next
      case (Some i)
      have "merge_inv (f[i := ?r], s)"
        using merge_inv_replace Cons.prems st Some by blast
      moreover have "merge_inv (f, s)" using Cons.prems st by simp
      ultimately show ?thesis using False st Some Cons.IH by (simp add: Let_def)
    qed
  qed
qed

lemma merge_rounds_inv:
  "merge_inv st \<Longrightarrow> merge_inv (merge_rounds top_k rounds srs st)"
proof (induction rounds arbitrary: st)
  case Nil
  then show ?case by simp
next
  case (Cons r rs)
  obtain f s where st: "st = (f, s)" by (cases st)
  show ?case using Cons.prems Cons.IH [OF merge_round_inv [OF Cons.prems]] st
    by simp
qed

lemma merge_round_length:
  "int (length (fst st)) \<le> top_k \<Longrightarrow>
   int (length (fst (merge_round top_k round_index srs st))) \<le> top_k"
proof (induction srs arbitrary: st)
  case Nil
  then show ?case by (cases st) simp
next
  case (Cons l ls)
  obtain f s where st: "st = (f, s)" by (cases st)
  show ?case
  proof (cases "int (length f) \<ge> top_k \<or> round_index \<ge> length l")
    case True
    then show ?thesis using Cons st by auto
  next
    case False
    then have lt: "int (length f) < top_k" by simp
    show ?thesis
    proof (cases "s (chunk_text (l ! round_index))")
      case None
      then show ?thesis using False st lt Cons.IH [of "(f @ [l ! round_index], s(chunk_text (l ! round_index) \<mapsto> length f))"]
        by (simp add: Let_def)
    next
      case (Some i)
      then show ?thesis using False st lt
          Cons.IH [of "(f[i := l ! round_index], s)"] Cons.IH [of "(f, s)"]
        by (simp add: Let_def)
    qed
  qed
qed

lemma merge_rounds_length:
  "int (length (fst st)) \<le> top_k \<Longrightarrow>
   int (length (fst (merge_rounds top_k rounds srs st))) \<le> top_k"
proof (induction rounds arbitrary: st)
  case Nil
  then show ?case by simp
next
  case (Cons r rs)
  obtain f s where st: "st = (f, s)" by (cases st)
  show ?case using Cons.prems Cons.IH [OF merge_round_length [OF Cons.prems]] st
    by simp
qed

subsection \<open>Bounded length and unique chunk texts\<close>

text \<open>
  Claim C10. For every list of per-query result lists and every \<^verbatim>\<open>top_k\<close> that is not
  negative, the merged list has at most \<^verbatim>\<open>top_k\<close> results, and no two of its results
  have the same chunk text: the uniqueness is part of an invariant that every pass of
  the inner loop keeps, whether it appends a result or replaces a duplicate.
\<close>

theorem merge_unique_bounded:
  fixes all_search_results :: "('s::linorder) search_result list list"
  shows "(0 \<le> top_k \<longrightarrow> int (length (merge_search_results all_search_results top_k)) \<le> top_k) \<and>
     distinct (map chunk_text (merge_search_results all_search_results top_k)) \<and>
     (\<forall>round_index st. merge_inv st \<longrightarrow>
        merge_inv (merge_round top_k round_index all_search_results st))"
proof -
  let ?st = "merge_rounds top_k [0..<nat top_k] all_search_results ([], Map.empty)"
  have i0: "merge_inv (([] :: 's search_result list), Map.empty)" by (simp add: merge_inv_def)
  have "merge_inv ?st" using merge_rounds_inv [OF i0] .
  then have d: "distinct (map chunk_text (fst ?st))" by (cases ?st) (simp add: merge_inv_def)
  have l: "0 \<le> top_k \<Longrightarrow> int (length (fst ?st)) \<le> top_k"
    by (rule merge_rounds_length) simp
  show ?thesis using d l merge_round_inv by (auto simp: merge_search_results_def)
qed

theorem merge_unique_bounded_witness:
  "(0::int) \<le> 2 \<and>
   int (length (merge_search_results
          [[hit ''x'' (3::int), hit ''y'' 1], [hit ''x'' 4, hit ''z'' 2]] 2)) \<le> 2 \<and>
   distinct (map chunk_text (merge_search_results
          [[hit ''x'' (3::int), hit ''y'' 1], [hit ''x'' 4, hit ''z'' 2]] 2)) \<and>
   merge_inv ([hit ''x'' (3::int)], [''x'' \<mapsto> 0]) \<and>
   merge_inv (merge_round 2 0 [[hit ''x'' (3::int), hit ''y'' 1], [hit ''x'' 4, hit ''z'' 2]]
                ([hit ''x'' 3], [''x'' \<mapsto> 0]))"
proof -
  let ?L = "[[hit ''x'' (3::int), hit ''y'' 1], [hit ''x'' 4, hit ''z'' 2]]"
  note t = merge_unique_bounded [of 2 ?L]
  have i: "merge_inv ([hit ''x'' (3::int)], [''x'' \<mapsto> 0])"
    by (simp add: merge_inv_def hit_def)
  have z: "(0::int) \<le> 2" by simp
  have l: "int (length (merge_search_results ?L 2)) \<le> 2"
    using t [THEN conjunct1] z by blast
  have d: "distinct (map chunk_text (merge_search_results ?L 2))"
    using t [THEN conjunct2, THEN conjunct1] .
  have m: "merge_inv (merge_round 2 0 ?L ([hit ''x'' 3], [''x'' \<mapsto> 0]))"
    using t [THEN conjunct2, THEN conjunct2] i by blast
  show ?thesis using z l d i m by blast
qed

subsection \<open>Which score a duplicate keeps\<close>

lemma covers_append: "covers f e \<Longrightarrow> covers (f @ [r]) e"
  by (auto simp: covers_def list_ex_iff)

lemma covers_last: "covers (f @ [r]) r"
  by (auto simp: covers_def list_ex_iff)

lemma covers_replace:
  assumes "merge_inv (f, s)" "s (chunk_text r) = Some i"
    "similarity_score (f ! i) < similarity_score r" "covers f e"
  shows "covers (f[i := r]) e"
proof -
  have i: "i < length f" "chunk_text (f ! i) = chunk_text r"
    using assms(1,2) by (auto simp: merge_inv_def)
  obtain x where x: "x \<in> set f" "chunk_text x = chunk_text e"
    "similarity_score e \<le> similarity_score x"
    using assms(4) by (auto simp: covers_def list_ex_iff)
  then obtain j where j: "j < length f" "f ! j = x" by (auto simp: in_set_conv_nth)
  show ?thesis
  proof (cases "j = i")
    case True
    have "r \<in> set (f[i := r])" using i(1) by (simp add: set_update_memI)
    moreover have "chunk_text r = chunk_text e" using True j x i by simp
    moreover have "similarity_score e \<le> similarity_score r" using True j x assms(3) by auto
    ultimately show ?thesis by (auto simp: covers_def list_ex_iff)
  next
    case False
    then have "f[i := r] ! j = x" using j by simp
    then have "x \<in> set (f[i := r])" using j(1) by (metis length_list_update nth_mem)
    then show ?thesis using x by (auto simp: covers_def list_ex_iff)
  qed
qed

lemma covers_replaced:
  assumes "merge_inv (f, s)" "s (chunk_text r) = Some i"
  shows "covers (f[i := r]) r"
proof -
  have "i < length f" using assms by (auto simp: merge_inv_def)
  then have "r \<in> set (f[i := r])" by (simp add: set_update_memI)
  then show ?thesis by (auto simp: covers_def list_ex_iff)
qed

lemma covers_seen:
  assumes "merge_inv (f, s)" "s (chunk_text r) = Some i"
    "\<not> similarity_score (f ! i) < similarity_score r"
  shows "covers f r"
proof -
  have "i < length f" "chunk_text (f ! i) = chunk_text r"
    using assms(1,2) by (auto simp: merge_inv_def)
  moreover have "similarity_score r \<le> similarity_score (f ! i)" using assms(3) by simp
  ultimately show ?thesis unfolding covers_def list_ex_iff by (metis nth_mem)
qed

text \<open>One pass of the inner loop over one result list.\<close>

lemma merge_round_Cons:
  "merge_round top_k r (l # ls) (f, s) =
     (if int (length f) \<ge> top_k then (f, s)
      else if r \<ge> length l then merge_round top_k r ls (f, s)
      else (case s (chunk_text (l ! r)) of
              Some i \<Rightarrow> merge_round top_k r ls
                 (if similarity_score (l ! r) > similarity_score (f ! i) then f[i := l ! r] else f, s)
            | None \<Rightarrow> merge_round top_k r ls (f @ [l ! r], s(chunk_text (l ! r) \<mapsto> length f))))"
  by (simp add: Let_def)

lemma merge_round_length_mono:
  "length (fst st) \<le> length (fst (merge_round top_k r ls st))"
proof (induction ls arbitrary: st)
  case Nil
  then show ?case by (cases st) simp
next
  case (Cons l ls)
  obtain f s where st: "st = (f, s)" by (cases st)
  show ?case
  proof (cases "s (chunk_text (l ! r))")
    case None
    show ?thesis
      using Cons [of "(f, s)"] Cons [of "(f @ [l ! r], s(chunk_text (l ! r) \<mapsto> length f))"]
      unfolding st merge_round_Cons None by auto
  next
    case (Some i)
    show ?thesis
      using Cons [of "(f, s)"] Cons [of "(f[i := l ! r], s)"]
      unfolding st merge_round_Cons Some by auto
  qed
qed

lemma merge_round_covers_mono:
  "merge_inv st \<Longrightarrow> covers (fst st) e \<Longrightarrow> covers (fst (merge_round top_k r ls st)) e"
proof (induction ls arbitrary: st)
  case Nil
  then show ?case by (cases st) simp
next
  case (Cons l ls)
  obtain f s where st: "st = (f, s)" by (cases st)
  have inv: "merge_inv (f, s)" and cov: "covers f e" using Cons.prems st by auto
  show ?case
  proof (cases "s (chunk_text (l ! r))")
    case None
    have "merge_inv (f @ [l ! r], s(chunk_text (l ! r) \<mapsto> length f))"
      using merge_inv_append [OF inv None] .
    then have "covers (fst (merge_round top_k r ls (f @ [l ! r], s(chunk_text (l ! r) \<mapsto> length f)))) e"
      using Cons.IH covers_append [OF cov] by simp
    then show ?thesis
      using Cons.IH [of "(f, s)"] inv cov unfolding st merge_round_Cons None by auto
  next
    case (Some i)
    have a: "covers (fst (merge_round top_k r ls (f[i := l ! r], s))) e"
      if "similarity_score (f ! i) < similarity_score (l ! r)"
      using Cons.IH [of "(f[i := l ! r], s)"] merge_inv_replace [OF inv Some]
        covers_replace [OF inv Some that cov] by simp
    show ?thesis
      using Cons.IH [of "(f, s)"] inv cov a unfolding st merge_round_Cons Some by auto
  qed
qed

lemma merge_round_covers:
  "merge_inv st \<Longrightarrow> int (length (fst (merge_round top_k r ls st))) < top_k \<Longrightarrow>
   l \<in> set ls \<Longrightarrow> r < length l \<Longrightarrow> covers (fst (merge_round top_k r ls st)) (l ! r)"
proof (induction ls arbitrary: st)
  case Nil
  then show ?case by simp
next
  case (Cons l' ls)
  obtain f s where st: "st = (f, s)" by (cases st)
  have inv: "merge_inv (f, s)" using Cons.prems st by auto
  have lf: "int (length f) < top_k"
    using Cons.prems(2) merge_round_length_mono [of st top_k r "l' # ls"] st by simp
  show ?case
  proof (cases "r \<ge> length l'")
    case True
    then have eq: "merge_round top_k r (l' # ls) st = merge_round top_k r ls st"
      using lf st by simp
    have "l \<in> set ls" using True Cons.prems(3,4) by auto
    then show ?thesis using Cons.IH [of st] Cons.prems unfolding eq by simp
  next
    case False
    define st' where "st' = (case s (chunk_text (l' ! r)) of
        Some i \<Rightarrow> (if similarity_score (l' ! r) > similarity_score (f ! i) then f[i := l' ! r] else f, s)
      | None \<Rightarrow> (f @ [l' ! r], s(chunk_text (l' ! r) \<mapsto> length f)))"
    have eq: "merge_round top_k r (l' # ls) st = merge_round top_k r ls st'"
      using lf False unfolding st merge_round_Cons st'_def by (simp split: option.splits)
    have inv': "merge_inv st'"
      unfolding st'_def using inv merge_inv_append [OF inv] merge_inv_replace [OF inv]
      by (auto split: option.splits)
    have cov': "covers (fst st') (l' ! r)"
      unfolding st'_def
      using covers_last covers_replaced [OF inv] covers_seen [OF inv]
      by (auto split: option.splits)
    show ?thesis
    proof (cases "l = l'")
      case True
      then show ?thesis unfolding eq using merge_round_covers_mono [OF inv' cov'] by simp
    next
      case False
      then have "l \<in> set ls" using Cons.prems(3) by simp
      then show ?thesis using Cons.IH [OF inv'] Cons.prems(2,4) unfolding eq by simp
    qed
  qed
qed

lemma merge_rounds_length_mono:
  "length (fst st) \<le> length (fst (merge_rounds top_k rs ls st))"
proof (induction rs arbitrary: st)
  case Nil
  then show ?case by simp
next
  case (Cons r rs)
  obtain f s where st: "st = (f, s)" by (cases st)
  show ?case
    using Cons [of "merge_round top_k r ls (f, s)"] merge_round_length_mono [of "(f, s)" top_k r ls]
    unfolding st by auto
qed

lemma merge_rounds_covers_mono:
  "merge_inv st \<Longrightarrow> covers (fst st) e \<Longrightarrow> covers (fst (merge_rounds top_k rs ls st)) e"
proof (induction rs arbitrary: st)
  case Nil
  then show ?case by simp
next
  case (Cons r rs)
  obtain f s where st: "st = (f, s)" by (cases st)
  show ?case
    using Cons.IH [OF merge_round_inv [OF Cons.prems(1)] merge_round_covers_mono [OF Cons.prems]]
      Cons.prems unfolding st by auto
qed

lemma merge_rounds_covers:
  "merge_inv st \<Longrightarrow> int (length (fst (merge_rounds top_k rs ls st))) < top_k \<Longrightarrow>
   r \<in> set rs \<Longrightarrow> l \<in> set ls \<Longrightarrow> r < length l \<Longrightarrow>
   covers (fst (merge_rounds top_k rs ls st)) (l ! r)"
proof (induction rs arbitrary: st)
  case Nil
  then show ?case by simp
next
  case (Cons r' rs)
  obtain f s where st: "st = (f, s)" by (cases st)
  let ?st' = "merge_round top_k r' ls st"
  have lf: "int (length f) < top_k"
    using Cons.prems(2) merge_rounds_length_mono [of st top_k "r' # rs" ls] st by simp
  have eq: "merge_rounds top_k (r' # rs) ls st = merge_rounds top_k rs ls ?st'"
    using lf st by simp
  have inv': "merge_inv ?st'" using merge_round_inv [OF Cons.prems(1)] .
  have len': "int (length (fst (merge_rounds top_k rs ls ?st'))) < top_k"
    using Cons.prems(2) unfolding eq .
  show ?case
  proof (cases "r = r'")
    case True
    have "int (length (fst ?st')) < top_k"
      using len' merge_rounds_length_mono [of ?st' top_k rs ls] by simp
    then have "covers (fst ?st') (l ! r)"
      using merge_round_covers [OF Cons.prems(1) _ Cons.prems(4)] Cons.prems(5) True by simp
    then show ?thesis unfolding eq using merge_rounds_covers_mono [OF inv'] by simp
  next
    case False
    then have "r \<in> set rs" using Cons.prems(3) by simp
    then show ?thesis unfolding eq using Cons.IH [OF inv' len' _ Cons.prems(4,5)] by simp
  qed
qed

lemma merge_round_subset:
  "set (fst (merge_round top_k r ls st)) \<subseteq> set (fst st) \<union> \<Union> (set ` set ls)"
proof (induction ls arbitrary: st)
  case Nil
  then show ?case by (cases st) simp
next
  case (Cons l ls)
  obtain f s where st: "st = (f, s)" by (cases st)
  show ?case
  proof (cases "int (length f) \<ge> top_k \<or> r \<ge> length l")
    case True
    then show ?thesis using Cons [of "(f, s)"] unfolding st by auto
  next
    case False
    then have mem: "l ! r \<in> set l" by simp
    show ?thesis
    proof (cases "s (chunk_text (l ! r))")
      case None
      show ?thesis
        using Cons [of "(f @ [l ! r], s(chunk_text (l ! r) \<mapsto> length f))"] False mem
        unfolding st merge_round_Cons None by auto
    next
      case (Some i)
      have "set (f[i := l ! r]) \<subseteq> insert (l ! r) (set f)" by (rule set_update_subset_insert)
      then show ?thesis
        using Cons [of "(f, s)"] Cons [of "(f[i := l ! r], s)"] False mem
        unfolding st merge_round_Cons Some by auto
    qed
  qed
qed

lemma merge_rounds_subset:
  "set (fst (merge_rounds top_k rs ls st)) \<subseteq> set (fst st) \<union> \<Union> (set ` set ls)"
proof (induction rs arbitrary: st)
  case Nil
  then show ?case by simp
next
  case (Cons r rs)
  obtain f s where st: "st = (f, s)" by (cases st)
  show ?case
    using Cons [of "merge_round top_k r ls (f, s)"] merge_round_subset [of top_k r ls "(f, s)"]
    unfolding st by auto
qed


lemma merge_result_distinct:
  "distinct (map chunk_text (merge_search_results srs top_k))"
proof -
  have "merge_inv (merge_rounds top_k [0..<nat top_k] srs ([], Map.empty))"
    by (rule merge_rounds_inv) (simp add: merge_inv_def)
  then show ?thesis
    by (cases "merge_rounds top_k [0..<nat top_k] srs ([], Map.empty)")
       (simp add: merge_inv_def merge_search_results_def)
qed

text \<open>
  Claim C4, as amended. Merging the ranked lists \<^verbatim>\<open>[{a,0.9},{b,0.5}]\<close> and
  \<^verbatim>\<open>[{a,0.95},{c,0.6}]\<close> with \<^verbatim>\<open>top_k=3\<close> gives \<^verbatim>\<open>a\<close> once with score 0.95, then
  \<^verbatim>\<open>b\<close> and \<^verbatim>\<open>c\<close>: three results. In general no chunk text is kept twice and every
  kept result is an entry of one of the lists; and when the merge ends with fewer than
  \<^verbatim>\<open>top_k\<close> results, every entry among the first \<^verbatim>\<open>top_k\<close> of any list is covered: its
  chunk text is kept with a score at least as high, so with the highest score among
  those entries.
\<close>

theorem merge_keeps_highest_visited:
  fixes srs :: "real search_result list list"
  shows "merge_search_results
           [[hit ''a'' 0.9, hit ''b'' 0.5], [hit ''a'' 0.95, hit ''c'' 0.6]] 3
         = [hit ''a'' (0.95::real), hit ''b'' 0.5, hit ''c'' 0.6] \<and>
     distinct (map chunk_text (merge_search_results srs top_k)) \<and>
     set (merge_search_results srs top_k) \<subseteq> \<Union> (set ` set srs) \<and>
     (int (length (merge_search_results srs top_k)) < top_k \<longrightarrow>
        (\<forall>l\<in>set srs. \<forall>e\<in>set (take (nat top_k) l).
           covers (merge_search_results srs top_k) e))"
proof -
  let ?st = "merge_rounds top_k [0..<nat top_k] srs ([], Map.empty)"
  have ex: "merge_search_results
           [[hit ''a'' 0.9, hit ''b'' 0.5], [hit ''a'' 0.95, hit ''c'' 0.6]] 3
         = [hit ''a'' (0.95::real), hit ''b'' 0.5, hit ''c'' 0.6]"
    by (simp add: merge_search_results_def hit_def upt_rec Let_def)
  have i0: "merge_inv (([] :: real search_result list), Map.empty)"
    by (simp add: merge_inv_def)
  have sub: "set (merge_search_results srs top_k) \<subseteq> \<Union> (set ` set srs)"
    using merge_rounds_subset [of top_k "[0..<nat top_k]" srs "([], Map.empty)"]
    by (simp add: merge_search_results_def)
  have cov: "covers (merge_search_results srs top_k) e"
    if len: "int (length (merge_search_results srs top_k)) < top_k"
      and l: "l \<in> set srs" and e: "e \<in> set (take (nat top_k) l)" for l e
  proof -
    obtain j where j: "j < length (take (nat top_k) l)" "take (nat top_k) l ! j = e"
      using e by (auto simp: in_set_conv_nth)
    then have jl: "j < length l" "j < nat top_k" "l ! j = e" by auto
    have "covers (fst ?st) (l ! j)"
      using merge_rounds_covers [OF i0 _ _ l jl(1), of top_k "[0..<nat top_k]"] len jl(2)
      by (simp add: merge_search_results_def)
    then show ?thesis using jl(3) by (simp add: merge_search_results_def)
  qed
  show ?thesis using ex merge_result_distinct sub cov by blast
qed

theorem merge_keeps_highest_visited_witness:
  "int (length (merge_search_results [[hit ''a'' (0.5::real)], [hit ''a'' 0.9]] 2)) < 2 \<and>
   hit ''a'' 0.5 \<in> set (take (nat 2) [hit ''a'' (0.5::real)]) \<and>
   covers (merge_search_results [[hit ''a'' (0.5::real)], [hit ''a'' 0.9]] 2) (hit ''a'' 0.5) \<and>
   merge_search_results [[hit ''a'' (0.5::real)], [hit ''a'' 0.9]] 2 = [hit ''a'' 0.9]"
proof -
  let ?L = "[[hit ''a'' (0.5::real)], [hit ''a'' 0.9]]"
  have v: "merge_search_results ?L 2 = [hit ''a'' 0.9]"
    by (simp add: merge_search_results_def hit_def upt_rec Let_def)
  have len: "int (length (merge_search_results ?L 2)) < 2" unfolding v by simp
  have mem: "hit ''a'' 0.5 \<in> set (take (nat 2) [hit ''a'' (0.5::real)])" by simp
  have "covers (merge_search_results ?L 2) (hit ''a'' 0.5)"
    using merge_keeps_highest_visited [of ?L 2, THEN conjunct2, THEN conjunct2, THEN conjunct2]
      len mem by (meson list.set_intros(1))
  then show ?thesis using v len mem by blast
qed

text \<open>
  The claim as first stated, that a duplicated chunk text always keeps its highest
  score, fails when the merge stops at \<^verbatim>\<open>top_k\<close> results before it reaches the better
  occurrence: with \<^verbatim>\<open>top_k=1\<close> the lists \<^verbatim>\<open>[{a,0.5}]\<close> and \<^verbatim>\<open>[{a,0.9}]\<close> give
  \<^verbatim>\<open>{a,0.5}\<close>.
\<close>

theorem merge_highest_score_counterexample:
  "merge_search_results [[hit ''a'' (0.5::real)], [hit ''a'' 0.9]] 1 = [hit ''a'' 0.5] \<and>
   \<not> covers (merge_search_results [[hit ''a'' (0.5::real)], [hit ''a'' 0.9]] 1) (hit ''a'' 0.9)"
  by (simp add: merge_search_results_def hit_def upt_rec Let_def covers_def)

section \<open>Properties of the embedding client\<close>

subsection \<open>The retry loop\<close>

lemma upt_3: "[0..<3] = [0, 1, 2]"
  by (simp add: upt_rec)

lemma str_nat_3: "str_nat 3 = ''3''"
  by (simp add: str_nat.simps digit_char_def)

lemma retry_3_cases:
  "embed_with_retry env model content 3 w =
     (case embed_content env (api_calls w) model content of
        Inr v \<Rightarrow> (Inr (Some v),
          w\<lparr>api_calls := api_calls w + 1, events := events w @ [Called (api_calls w)]\<rparr>)
      | Inl e1 \<Rightarrow>
         (case embed_content env (api_calls w + 1) model content of
            Inr v \<Rightarrow> (Inr (Some v),
              w\<lparr>api_calls := api_calls w + 2,
                events := events w @ [Called (api_calls w), Slept 1, Called (api_calls w + 1)]\<rparr>)
          | Inl e2 \<Rightarrow>
             (case embed_content env (api_calls w + 2) model content of
                Inr v \<Rightarrow> (Inr (Some v),
                  w\<lparr>api_calls := api_calls w + 3,
                    events := events w @
                      [Called (api_calls w), Slept 1, Called (api_calls w + 1), Slept 2,
                       Called (api_calls w + 2)]\<rparr>)
              | Inl e3 \<Rightarrow>
                  (Inl (EmbeddingGenerationError (''Failed after 3 attempts: '' @ message e3)),
                   w\<lparr>api_calls := api_calls w + 3,
                     events := events w @
                       [Called (api_calls w), Slept 1, Called (api_calls w + 1), Slept 2,
                        Called (api_calls w + 2)]\<rparr>))))"
  unfolding embed_with_retry_def upt_3
  by (simp add: Let_def str_nat_3 split: sum.splits)

text \<open>
  Claim C6. A batch call (\<^verbatim>\<open>_embed_with_retry\<close> with its three attempts) calls the
  remote service at most three times. The first success ends it with that attempt's
  response and no error. One second is slept between the first and the second
  attempt and two seconds between the second and the third. An
  \<^verbatim>\<open>EmbeddingGenerationError\<close> that wraps the message of the third attempt's error is
  raised exactly when all three attempts fail.
\<close>

theorem embed_with_retry_three_attempts:
  fixes env model content w
  defines "a \<equiv> api_calls w"
  defines "attempt1 \<equiv> embed_content env a model content"
    and "attempt2 \<equiv> embed_content env (a + 1) model content"
    and "attempt3 \<equiv> embed_content env (a + 2) model content"
  defines "r \<equiv> embed_with_retry env model content 3 w"
  shows "r =
     (case attempt1 of
        Inr v \<Rightarrow> (Inr (Some v), w\<lparr>api_calls := a + 1, events := events w @ [Called a]\<rparr>)
      | Inl e1 \<Rightarrow>
         (case attempt2 of
            Inr v \<Rightarrow> (Inr (Some v),
              w\<lparr>api_calls := a + 2,
                events := events w @ [Called a, Slept 1, Called (a + 1)]\<rparr>)
          | Inl e2 \<Rightarrow>
             (case attempt3 of
                Inr v \<Rightarrow> (Inr (Some v),
                  w\<lparr>api_calls := a + 3,
                    events := events w @
                      [Called a, Slept 1, Called (a + 1), Slept 2, Called (a + 2)]\<rparr>)
              | Inl e3 \<Rightarrow>
                  (Inl (EmbeddingGenerationError (''Failed after 3 attempts: '' @ message e3)),
                   w\<lparr>api_calls := a + 3,
                     events := events w @
                       [Called a, Slept 1, Called (a + 1), Slept 2, Called (a + 2)]\<rparr>)))) \<and>
     api_calls (snd r) \<le> a + 3 \<and>
     (isl (fst r) \<longleftrightarrow> isl attempt1 \<and> isl attempt2 \<and> isl attempt3)"
  unfolding r_def a_def attempt1_def attempt2_def attempt3_def retry_3_cases
  by (simp split: sum.splits)

theorem embed_with_retry_three_attempts_witness:
  "embed_with_retry (example_env [0] [] []) ''models/embedding-001'' [''hi''] 3 (world0 []) =
     (Inr (Some [[2, 1]]),
      (world0 [])\<lparr>api_calls := 2, events := [Called 0, Slept 1, Called 1]\<rparr>)"
  using embed_with_retry_three_attempts
    [where env = "example_env [0] [] []" and w = "world0 []"
       and model = "''models/embedding-001''" and content = "[''hi'']"]
  by (simp add: example_env_def world0_def)


subsection \<open>Batches keep length and order\<close>

lemma retry_3_result:
  assumes "embed_with_retry env model batch 3 w = (Inr res, w')"
  shows "\<exists>n vs. res = Some vs \<and> embed_content env n model batch = Inr vs"
  using assms unfolding retry_3_cases by (auto split: sum.splits)

lemma retry_3_succeeds:
  assumes "\<not> (isl (embed_content env (api_calls w) model batch) \<and>
              isl (embed_content env (api_calls w + 1) model batch) \<and>
              isl (embed_content env (api_calls w + 2) model batch))"
  shows "\<exists>vs w'. embed_with_retry env model batch 3 w = (Inr (Some vs), w')"
  using assms unfolding retry_3_cases by (auto split: sum.splits)

lemma batch_starts_upt: "batch_starts n = map (\<lambda>k. k * 10) [0..<(n + 9) div 10]"
  by (simp add: batch_starts_def BATCH_SIZE_def add.commute)

lemma take_batch:
  "take (i * 10) chunks @ take (min (i * 10 + 10) (length chunks) - i * 10) (drop (i * 10) chunks)
     = take (Suc i * 10) chunks"
proof -
  have "take (min (i * 10 + 10) (length chunks) - i * 10) (drop (i * 10) chunks)
        = take 10 (drop (i * 10) chunks)"
    by (cases "i * 10 + 10 \<le> length chunks") (simp_all add: min_def)
  then show ?thesis by (simp add: take_add [symmetric] add.commute)
qed

lemma embed_batches_correct:
  assumes api: "\<And>n m b vs. embed_content env n m b = Inr vs \<Longrightarrow> list_all2 R b vs"
  shows "list_all2 R (take (i * 10) chunks) acc \<Longrightarrow>
     embed_batches env model chunks (map (\<lambda>k. k * 10) [i..<m]) acc w = (Inr embs, w') \<Longrightarrow>
     list_all2 R (take (max i m * 10) chunks) embs"
proof (induction "m - i" arbitrary: i acc w)
  case 0
  then have "[i..<m] = []" "max i m = i" by auto
  then show ?case using 0 by simp
next
  case (Suc d)
  then have im: "i < m" by simp
  then have upt: "[i..<m] = i # [Suc i..<m]" by (simp add: upt_conv_Cons)
  let ?batch = "take (min (i * 10 + 10) (length chunks) - i * 10) (drop (i * 10) chunks)"
  obtain res w1 where r: "embed_with_retry env model ?batch 3 w = (res, w1)"
    by (cases "embed_with_retry env model ?batch 3 w")
  show ?case
  proof (cases res)
    case (Inl e)
    then show ?thesis using Suc.prems(2) r unfolding upt by (simp add: BATCH_SIZE_def Let_def)
  next
    case (Inr o1)
    then obtain n vs where vs: "o1 = Some vs" "embed_content env n model ?batch = Inr vs"
      using retry_3_result r by blast
    have b: "list_all2 R ?batch vs" using api vs(2) by blast
    have acc': "list_all2 R (take (Suc i * 10) chunks) (acc @ vs)"
      using list_all2_appendI [OF Suc.prems(1) b] unfolding take_batch .
    let ?w2 = "if min (i * 10 + 10) (length chunks) < length chunks
               then w1\<lparr>events := events w1 @ [Slept (1 / 10)]\<rparr> else w1"
    have run: "embed_batches env model chunks (map (\<lambda>k. k * 10) [Suc i..<m]) (acc @ vs) ?w2
               = (Inr embs, w')"
      using Suc.prems(2) r Inr vs(1) unfolding upt by (simp add: BATCH_SIZE_def Let_def)
    have d: "d = m - Suc i" using Suc.hyps(2) by simp
    have "list_all2 R (take (max (Suc i) m * 10) chunks) embs"
      using Suc.hyps(1) [OF d acc' run] .
    moreover have "max (Suc i) m = max i m" using im by simp
    ultimately show ?thesis by simp
  qed
qed

lemma embed_batches_succeeds:
  assumes ok: "\<And>n m b. \<not> (isl (embed_content env n m b) \<and> isl (embed_content env (n + 1) m b)
                    \<and> isl (embed_content env (n + 2) m b))"
  shows "\<exists>embs w'. embed_batches env model chunks starts acc w = (Inr embs, w')"
proof (induction starts arbitrary: acc w)
  case Nil
  then show ?case by simp
next
  case (Cons s starts)
  let ?batch = "take (min (s + 10) (length chunks) - s) (drop s chunks)"
  obtain vs w1 where r: "embed_with_retry env model ?batch 3 w = (Inr (Some vs), w1)"
    using retry_3_succeeds [OF ok] by blast
  show ?case using r Cons.IH by (simp add: BATCH_SIZE_def Let_def)
qed


lemma take_all_batches: "take (max 0 ((n + 9) div 10) * 10) chunks = chunks" if "n = length chunks"
proof -
  have "n \<le> (n + 9) div 10 * 10" by presburger
  then show ?thesis using that by simp
qed

text \<open>
  Claim C5, as amended. Let each response of the remote service hold exactly one vector
  per input string, in input order: the relation \<open>R\<close> between a text and its vector
  holds position by position. Then an empty chunk list is refused with a
  \<^verbatim>\<open>ValueError\<close>; whenever \<^verbatim>\<open>generate_embeddings\<close> returns a list, it has the length of
  the input and its i-th vector corresponds to the i-th chunk, for every chunk count
  and so across the batches of 10; it does return a list for every non-empty input when
  the configuration is present and no three consecutive remote calls fail; and with
  the configuration absent it raises an \<^verbatim>\<open>EmbeddingGenerationError\<close> instead.
\<close>

theorem generate_embeddings_order:
  assumes api: "\<forall>n m b vs. embed_content env n m b = Inr vs \<longrightarrow> list_all2 R b vs"
  shows "generate_embeddings env [] w =
           (Inl (ValueError ''Cannot generate embeddings for empty chunks list''), w) \<and>
     (\<forall>vs w'. generate_embeddings env chunks w = (Inr vs, w') \<longrightarrow>
        length vs = length chunks \<and> list_all2 R chunks vs) \<and>
     (chunks \<noteq> [] \<and> \<not> isl (load_configuration env) \<and>
      (\<forall>n m b. \<not> (isl (embed_content env n m b) \<and> isl (embed_content env (n + 1) m b)
                    \<and> isl (embed_content env (n + 2) m b))) \<longrightarrow>
        (\<exists>vs w'. generate_embeddings env chunks w = (Inr vs, w') \<and> list_all2 R chunks vs)) \<and>
     (chunks \<noteq> [] \<and> isl (load_configuration env) \<longrightarrow>
        (\<exists>m. generate_embeddings env chunks w = (Inl (EmbeddingGenerationError m), w)))"
proof -
  have a: "generate_embeddings env [] w =
           (Inl (ValueError ''Cannot generate embeddings for empty chunks list''), w)"
    by (simp add: generate_embeddings_def)
  have b: "list_all2 R chunks vs" if g: "generate_embeddings env chunks w = (Inr vs, w')" for vs w'
  proof -
    obtain cfg where cfg: "load_configuration env = Inr cfg"
      using g by (cases "load_configuration env")
        (auto simp: generate_embeddings_def split: if_splits)
    have run: "embed_batches env (embedding_model cfg) chunks
                 (map (\<lambda>k. k * 10) [0..<(length chunks + 9) div 10]) [] w = (Inr vs, w')"
      using g cfg
      by (auto simp: generate_embeddings_def batch_starts_upt split: if_splits sum.splits prod.splits)
    have "list_all2 R (take (max 0 ((length chunks + 9) div 10) * 10) chunks) vs"
      using embed_batches_correct [where R = R and i = 0 and acc = "[]", OF _ _ run] api
      by simp
    then show ?thesis using take_all_batches [OF refl] by simp
  qed
  have c: "\<exists>vs w'. generate_embeddings env chunks w = (Inr vs, w') \<and> list_all2 R chunks vs"
    if ne: "chunks \<noteq> []" and cfg: "\<not> isl (load_configuration env)"
      and ok: "\<forall>n m b. \<not> (isl (embed_content env n m b) \<and> isl (embed_content env (n + 1) m b)
                    \<and> isl (embed_content env (n + 2) m b))"
  proof -
    obtain cf where cf: "load_configuration env = Inr cf"
      using cfg by (cases "load_configuration env") auto
    obtain embs w' where "embed_batches env (embedding_model cf) chunks
         (batch_starts (length chunks)) [] w = (Inr embs, w')"
      using embed_batches_succeeds [of env] ok by blast
    then have "generate_embeddings env chunks w = (Inr embs, w')"
      using ne cf by (simp add: generate_embeddings_def)
    then show ?thesis using b by blast
  qed
  have d: "\<exists>m. generate_embeddings env chunks w = (Inl (EmbeddingGenerationError m), w)"
    if "chunks \<noteq> []" "isl (load_configuration env)"
    using that by (cases "load_configuration env") (auto simp: generate_embeddings_def)
  show ?thesis using a b c d list_all2_lengthD by (metis (no_types, lifting))
qed

lemma example_env_api:
  "\<forall>n m b vs. embed_content (example_env fs ds t) n m b = Inr vs \<longrightarrow>
     list_all2 (\<lambda>c v. v = [real (length c), 1]) b vs"
  by (auto simp: example_env_def list_all2_conv_all_nth)

theorem generate_embeddings_order_witness:
  "generate_embeddings (example_env [0] [] [])
      [''a'', ''bb'', ''c'', ''dd'', ''e'', ''ff'', ''g'', ''hh'', ''i'', ''jj'', ''kkk'']
      (world0 []) =
     (Inr [[1, 1], [2, 1], [1, 1], [2, 1], [1, 1], [2, 1], [1, 1], [2, 1], [1, 1], [2, 1], [3, 1]],
      (world0 [])\<lparr>api_calls := 3,
         events := [Called 0, Slept 1, Called 1, Slept (1 / 10), Called 2]\<rparr>) \<and>
   list_all2 (\<lambda>c v. v = [real (length c), 1])
      [''a'', ''bb'', ''c'', ''dd'', ''e'', ''ff'', ''g'', ''hh'', ''i'', ''jj'', ''kkk'']
      [[1, 1], [2, 1], [1, 1], [2, 1], [1, 1], [2, 1], [1, 1], [2, 1], [1, 1], [2, 1], [3, 1]]"
proof -
  let ?cs = "[''a'', ''bb'', ''c'', ''dd'', ''e'', ''ff'', ''g'', ''hh'', ''i'', ''jj'', ''kkk'']"
  have cfg: "load_configuration (example_env [0] [] []) =
      Inr \<lparr>api_key = ''secret'', postgres_url = ''postgresql://localhost/rag'',
           embedding_model = ''models/embedding-001''\<rparr>"
    by (simp add: load_configuration_def example_env_def startswith_def)
  have g: "generate_embeddings (example_env [0] [] []) ?cs (world0 []) =
     (Inr [[1, 1], [2, 1], [1, 1], [2, 1], [1, 1], [2, 1], [1, 1], [2, 1], [1, 1], [2, 1], [3, 1]],
      (world0 [])\<lparr>api_calls := 3,
         events := [Called 0, Slept 1, Called 1, Slept (1 / 10), Called 2]\<rparr>)"
    unfolding generate_embeddings_def cfg
    by (simp add: batch_starts_def BATCH_SIZE_def upt_rec retry_3_cases Let_def
          example_env_def world0_def)
  show ?thesis
    using g generate_embeddings_order [OF example_env_api, of "[0]" "[]" "[]" "world0 []" ?cs]
    by blast
qed

text \<open>
  The claim as first stated promises a list for every non-empty input as soon as the
  remote service answers well. With the configuration absent the function raises
  before any remote call, although the service would answer.
\<close>

theorem generate_embeddings_config_counterexample:
  "generate_embeddings ((example_env [] [] [])\<lparr>getenv := Map.empty\<rparr>) [''hi''] (world0 []) =
     (Inl (EmbeddingGenerationError
        ''Configuration error: GEMINI_API_KEY not found in environment''), world0 []) \<and>
   embed_content ((example_env [] [] [])\<lparr>getenv := Map.empty\<rparr>) 0 ''models/embedding-001''
     [''hi''] = Inr [[2, 1]]"
  by (simp add: generate_embeddings_def load_configuration_def example_env_def)

section \<open>Properties of the similarity search\<close>

subsection \<open>The query of a single vector\<close>

lemma score_rows_filter:
  "query_norm \<noteq> 0 \<Longrightarrow>
   score_rows rows q query_norm = Inr (map (scored_row q query_norm) (filter norm_positive rows))"
proof (induction rows)
  case Nil
  then show ?case by simp
next
  case (Cons r rows)
  show ?case
  proof (cases "embedding_norm r")
    case None
    then show ?thesis using Cons by (simp add: norm_positive_def)
  next
    case (Some n)
    then show ?thesis using Cons
      by (simp add: norm_positive_def scored_row_def sql_divide_def)
  qed
qed

lemma positive_divisor:
  "norm_positive r \<Longrightarrow> query_norm \<noteq> 0 \<Longrightarrow> the (embedding_norm r) * query_norm \<noteq> 0"
  by (auto simp: norm_positive_def split: option.splits)

lemma order_by_desc_sorted: "sorted_desc (order_by_desc rows)"
proof -
  have "sorted (map (\<lambda>r. - similarity_score r) (order_by_desc rows))"
    unfolding order_by_desc_def by (rule sorted_sort_key)
  then show ?thesis by (simp add: sorted_desc_def sorted_map sorted_wrt_iff_nth_less)
qed

lemma order_by_desc_set: "set (order_by_desc rows) = set rows"
  by (simp add: order_by_desc_def)

lemma search_single_zero:
  "linalg_norm q = 0 \<Longrightarrow> search_single_embedding env q top_k w = (Inr [], w)"
  by (simp add: search_single_embedding_def)

lemma search_single_result:
  assumes "search_single_embedding env q top_k w = (Inr rs, w')"
  shows "rs = [] \<and> linalg_norm q = 0 \<or>
         linalg_norm q \<noteq> 0 \<and> 0 \<le> top_k \<and>
         rs = take (nat top_k) (order_by_desc
                (map (scored_row q (linalg_norm q)) (filter norm_positive (documents w))))"
proof (cases "linalg_norm q = 0")
  case True
  then show ?thesis using assms by (simp add: search_single_embedding_def)
next
  case False
  then show ?thesis using assms score_rows_filter [OF False]
    by (auto simp: search_single_embedding_def db_interaction_def Let_def
             split: if_splits option.splits)
qed

lemma search_single_errors:
  assumes "search_single_embedding env q top_k w = (Inl e, w')"
  shows "linalg_norm q \<noteq> 0 \<and> (db_fault env (db_calls w) \<noteq> None \<or> top_k < 0)"
proof (cases "linalg_norm q = 0")
  case True
  then show ?thesis using assms by (simp add: search_single_embedding_def)
next
  case False
  then show ?thesis using assms score_rows_filter [OF False]
    by (auto simp: search_single_embedding_def db_interaction_def Let_def
             split: if_splits option.splits)
qed

lemma search_single_documents:
  "search_single_embedding env q top_k w = (res, w') \<Longrightarrow> documents w' = documents w"
  by (auto simp: search_single_embedding_def db_interaction_def Let_def
           split: if_splits option.splits sum.splits)


text \<open>
  Claim C7. A query vector of norm zero makes the single-vector search return no
  results, without an error and without touching the database. For any other query
  vector the rows whose norm is \<^verbatim>\<open>NULL\<close> or not greater than 0 are left out of the scoring,
  every divisor \<open>embedding_norm * query_norm\<close> of a scored row is different from zero, so
  the scoring never fails on a division; every result comes from a row of positive
  norm; and an error of the search can only be a fault of the database or a negative
  \<^verbatim>\<open>LIMIT\<close>.
\<close>

theorem zero_norm_guards:
  "(linalg_norm q = 0 \<longrightarrow> search_single_embedding env q top_k w = (Inr [], w)) \<and>
   (linalg_norm q \<noteq> 0 \<longrightarrow>
      (\<forall>r\<in>set rows. norm_positive r \<longrightarrow> the (embedding_norm r) * linalg_norm q \<noteq> 0) \<and>
      score_rows rows q (linalg_norm q) =
        Inr (map (scored_row q (linalg_norm q)) (filter norm_positive rows))) \<and>
   (\<forall>rs w'. search_single_embedding env q top_k w = (Inr rs, w') \<longrightarrow>
      set rs \<subseteq> scored_row q (linalg_norm q) ` {r \<in> set (documents w). norm_positive r}) \<and>
   (\<forall>e w'. search_single_embedding env q top_k w = (Inl e, w') \<longrightarrow>
      linalg_norm q \<noteq> 0 \<and> (db_fault env (db_calls w) \<noteq> None \<or> top_k < 0))"
proof (intro conjI impI allI ballI)
  show "search_single_embedding env q top_k w = (Inr [], w)" if "linalg_norm q = 0"
    using that by (rule search_single_zero)
next
  fix r assume "linalg_norm q \<noteq> 0" "r \<in> set rows" "norm_positive r"
  then show "the (embedding_norm r) * linalg_norm q \<noteq> 0" using positive_divisor by blast
next
  assume "linalg_norm q \<noteq> 0"
  then show "score_rows rows q (linalg_norm q) =
        Inr (map (scored_row q (linalg_norm q)) (filter norm_positive rows))"
    by (rule score_rows_filter)
next
  fix rs w' assume a: "search_single_embedding env q top_k w = (Inr rs, w')"
  have "set (take (nat top_k) (order_by_desc
          (map (scored_row q (linalg_norm q)) (filter norm_positive (documents w)))))
        \<subseteq> scored_row q (linalg_norm q) ` {r \<in> set (documents w). norm_positive r}"
    using set_take_subset [of "nat top_k"] by (fastforce simp: order_by_desc_set)
  then show "set rs \<subseteq> scored_row q (linalg_norm q) ` {r \<in> set (documents w). norm_positive r}"
    using search_single_result [OF a] by auto
next
  fix e w' assume a: "search_single_embedding env q top_k w = (Inl e, w')"
  show "linalg_norm q \<noteq> 0" using search_single_errors [OF a] by simp
  show "db_fault env (db_calls w) \<noteq> None \<or> top_k < 0" using search_single_errors [OF a] by simp
qed

theorem zero_norm_guards_witness:
  "linalg_norm [0, 0] = 0 \<and>
   search_single_embedding (example_env [] [] []) [0, 0] 2 (world0 [doc_row ''a'' [1, 0] 1]) =
     (Inr [], world0 [doc_row ''a'' [1, 0] 1]) \<and>
   linalg_norm [0, 1] \<noteq> 0 \<and>
   norm_positive (doc_row ''a'' [1, 0] 1) \<and> \<not> norm_positive (doc_row ''z'' [0, 0] 0) \<and>
   the (embedding_norm (doc_row ''a'' [1, 0] 1)) * linalg_norm [0, 1] \<noteq> 0 \<and>
   score_rows [doc_row ''a'' [1, 0] 1, doc_row ''z'' [0, 0] 0] [0, 1] (linalg_norm [0, 1]) =
     Inr [hit ''a'' 0]"
proof -
  have n0: "linalg_norm [0, 0] = 0" and n1: "linalg_norm [0, 1] \<noteq> 0"
    by (simp_all add: linalg_norm_def)
  have p: "norm_positive (doc_row ''a'' [1, 0] 1)" "\<not> norm_positive (doc_row ''z'' [0, 0] 0)"
    by (simp_all add: norm_positive_def doc_row_def)
  note t0 = zero_norm_guards [where q = "[0, 0]" and env = "example_env [] [] []" and top_k = 2
      and w = "world0 [doc_row ''a'' [1, 0] 1]", THEN conjunct1, rule_format, OF n0]
  note t1 = zero_norm_guards [where q = "[0, 1]"
      and rows = "[doc_row ''a'' [1, 0] 1, doc_row ''z'' [0, 0] 0]",
      THEN conjunct2, THEN conjunct1, rule_format, OF n1]
  have d: "the (embedding_norm (doc_row ''a'' [1, 0] 1)) * linalg_norm [0, 1] \<noteq> 0"
    using t1 [THEN conjunct1] p(1) by simp
  have s: "score_rows [doc_row ''a'' [1, 0] 1, doc_row ''z'' [0, 0] 0] [0, 1] (linalg_norm [0, 1]) =
     Inr [hit ''a'' 0]"
    using t1 [THEN conjunct2] p
    by (simp add: scored_row_def doc_row_def hit_def dot_product_def linalg_norm_def)
  show ?thesis using n0 n1 p t0 d s by blast
qed

subsection \<open>The search over all query vectors\<close>

lemma merge_round_single:
  "merge_round top_k r [l] (f, s) =
     (if int (length f) \<ge> top_k \<or> r \<ge> length l then (f, s)
      else (case s (chunk_text (l ! r)) of
              Some i \<Rightarrow> (if similarity_score (l ! r) > similarity_score (f ! i)
                         then f[i := l ! r] else f, s)
            | None \<Rightarrow> (f @ [l ! r], s(chunk_text (l ! r) \<mapsto> length f))))"
  by (simp add: Let_def split: option.splits)

lemma merge_rounds_single_sorted:
  assumes l: "sorted_desc l"
  shows "sorted_wrt (<) rs \<Longrightarrow> merge_inv (f, s) \<Longrightarrow> sorted_desc f \<Longrightarrow>
     (\<forall>x\<in>set f. \<forall>j\<in>set rs. j < length l \<longrightarrow> similarity_score (l ! j) \<le> similarity_score x) \<Longrightarrow>
     sorted_desc (fst (merge_rounds top_k rs [l] (f, s)))"
proof (induction rs arbitrary: f s)
  case Nil
  then show ?case by simp
next
  case (Cons r rs)
  have srs: "sorted_wrt (<) rs" and lt: "\<And>j. j \<in> set rs \<Longrightarrow> r < j"
    using Cons.prems(1) by auto
  have below: "\<And>x j. x \<in> set f \<Longrightarrow> j \<in> set (r # rs) \<Longrightarrow> j < length l \<Longrightarrow>
     similarity_score (l ! j) \<le> similarity_score x"
    using Cons.prems(4) by blast
  show ?case
  proof (cases "int (length f) \<ge> top_k \<or> r \<ge> length l")
    case True
    have "merge_rounds top_k (r # rs) [l] (f, s) = (f, s) \<or>
          merge_rounds top_k (r # rs) [l] (f, s) = merge_rounds top_k rs [l] (f, s)"
      using True by (auto simp: merge_round_single simp del: merge_round.simps)
    moreover have "sorted_desc (fst (merge_rounds top_k rs [l] (f, s)))"
      using Cons.IH [OF srs Cons.prems(2,3)] below by simp
    ultimately show ?thesis using Cons.prems(3) by auto
  next
    case False
    then have rl: "r < length l" and fl: "\<not> int (length f) \<ge> top_k" by auto
    show ?thesis
    proof (cases "s (chunk_text (l ! r))")
      case (Some i)
      have "i < length f" using Cons.prems(2) Some by (auto simp: merge_inv_def)
      then have "\<not> similarity_score (f ! i) < similarity_score (l ! r)"
        using below [of "f ! i" r] rl by (simp add: not_less)
      then have "merge_round top_k r [l] (f, s) = (f, s)"
        using False Some by (simp add: merge_round_single del: merge_round.simps)
      then have "merge_rounds top_k (r # rs) [l] (f, s) = merge_rounds top_k rs [l] (f, s)"
        using fl by simp
      moreover have "sorted_desc (fst (merge_rounds top_k rs [l] (f, s)))"
        using Cons.IH [OF srs Cons.prems(2,3)] below by simp
      ultimately show ?thesis by simp
    next
      case None
      let ?f' = "f @ [l ! r]" and ?s' = "s(chunk_text (l ! r) \<mapsto> length f)"
      have step: "merge_round top_k r [l] (f, s) = (?f', ?s')"
        using False None by (simp add: merge_round_single del: merge_round.simps)
      have eq: "merge_rounds top_k (r # rs) [l] (f, s) = merge_rounds top_k rs [l] (?f', ?s')"
        using fl step by simp
      have inv': "merge_inv (?f', ?s')" using merge_inv_append [OF Cons.prems(2) None] .
      have sorted': "sorted_desc ?f'"
        using Cons.prems(3) below [of _ r] rl by (auto simp: sorted_desc_def sorted_wrt_append)
      have below': "\<forall>x\<in>set ?f'. \<forall>j\<in>set rs. j < length l \<longrightarrow>
          similarity_score (l ! j) \<le> similarity_score x"
      proof (intro ballI impI)
        fix x j assume x: "x \<in> set ?f'" and j: "j \<in> set rs" "j < length l"
        show "similarity_score (l ! j) \<le> similarity_score x"
        proof (cases "x \<in> set f")
          case True
          then show ?thesis using below j by simp
        next
          case False
          then have "x = l ! r" using x by simp
          then show ?thesis
            using sorted_wrt_nth_less [OF l [unfolded sorted_desc_def] lt [OF j(1)] j(2)] by simp
        qed
      qed
      show ?thesis unfolding eq using Cons.IH [OF srs inv' sorted' below'] .
    qed
  qed
qed

lemma merge_single_sorted:
  "sorted_desc l \<Longrightarrow> sorted_desc (merge_search_results [l] top_k)"
  unfolding merge_search_results_def
  by (rule merge_rounds_single_sorted) (simp_all add: merge_inv_def sorted_desc_def)

lemma merge_result_length:
  "0 \<le> top_k \<Longrightarrow> int (length (merge_search_results srs top_k)) \<le> top_k"
  unfolding merge_search_results_def by (rule merge_rounds_length) simp

lemma search_each_result:
  "search_each env qs top_k acc w = (Inr srs, w') \<Longrightarrow>
   \<exists>new. srs = acc @ new \<and> length new = length qs \<and> list_all sorted_desc new"
proof (induction qs arbitrary: acc w)
  case Nil
  then show ?case by simp
next
  case (Cons q qs)
  obtain res w1 where r: "search_single_embedding env q top_k w = (res, w1)"
    by (cases "search_single_embedding env q top_k w")
  show ?case
  proof (cases res)
    case (Inl e)
    then show ?thesis using Cons.prems r by simp
  next
    case (Inr rs)
    have sd: "sorted_desc rs"
      using search_single_result [OF r [unfolded Inr]] order_by_desc_sorted
      by (auto simp: sorted_desc_def)
    have "search_each env qs top_k (acc @ [rs]) w1 = (Inr srs, w')"
      using Cons.prems r Inr by simp
    then obtain new where "srs = (acc @ [rs]) @ new" "length new = length qs"
      "list_all sorted_desc new" using Cons.IH by blast
    then have "srs = acc @ (rs # new) \<and> length (rs # new) = length (q # qs) \<and>
               list_all sorted_desc (rs # new)" using sd by simp
    then show ?thesis by blast
  qed
qed

lemma db_interaction_ok:
  "db_fault env (db_calls w) = None \<Longrightarrow>
   db_interaction env w = (Inr (), w\<lparr>db_calls := db_calls w + 1\<rparr>)"
  by (simp add: db_interaction_def)

lemma search_each_succeeds:
  assumes "\<forall>n. db_fault env n = None" "0 \<le> top_k"
  shows "\<exists>srs w'. search_each env qs top_k acc w = (Inr srs, w')"
proof (induction qs arbitrary: acc w)
  case Nil
  then show ?case by simp
next
  case (Cons q qs)
  have "\<exists>rs w1. search_single_embedding env q top_k w = (Inr rs, w1)"
  proof (cases "linalg_norm q = 0")
    case True
    then show ?thesis by (simp add: search_single_embedding_def)
  next
    case False
    then show ?thesis using assms score_rows_filter [OF False]
      by (simp add: search_single_embedding_def db_interaction_ok Let_def)
  qed
  then obtain rs w1 where "search_single_embedding env q top_k w = (Inr rs, w1)" by blast
  then show ?case using Cons.IH by simp
qed

text \<open>
  Claim C1, as amended. For \<^verbatim>\<open>top_k\<close> not negative: whenever \<^verbatim>\<open>similarity_search\<close> returns
  a list, it holds at most \<^verbatim>\<open>top_k\<close> results with pairwise different chunk texts, and
  with exactly one query vector the list is in descending order of similarity score;
  and it does return a list for every non-empty sequence of query vectors when the
  configuration is present and the database does not fail.
\<close>

theorem similarity_search_bounded:
  "0 \<le> top_k \<longrightarrow>
     (\<forall>rs w'. similarity_search env query_embeddings top_k w = (Inr rs, w') \<longrightarrow>
        int (length rs) \<le> top_k \<and> distinct (map chunk_text rs) \<and>
        (length query_embeddings = 1 \<longrightarrow> sorted_desc rs)) \<and>
     (query_embeddings \<noteq> [] \<and> \<not> isl (load_configuration env) \<and> (\<forall>n. db_fault env n = None) \<longrightarrow>
        (\<exists>rs w'. similarity_search env query_embeddings top_k w = (Inr rs, w')))"
proof (intro impI conjI allI)
  fix rs w'
  assume k: "0 \<le> top_k"
    and s: "similarity_search env query_embeddings top_k w = (Inr rs, w')"
  obtain srs w2 w3 where e: "search_each env query_embeddings top_k [] w2 = (Inr srs, w3)"
    and rs: "rs = merge_search_results srs top_k"
    using s by (auto simp: similarity_search_def split: if_splits sum.splits prod.splits)
  show "int (length rs) \<le> top_k" using merge_result_length [OF k] rs by simp
  show "distinct (map chunk_text rs)" using merge_result_distinct rs by simp
  show "sorted_desc rs" if one: "length query_embeddings = 1"
  proof -
    obtain new where "srs = new" "length new = 1" "list_all sorted_desc new"
      using search_each_result [OF e] one by auto
    then obtain l where "srs = [l]" "sorted_desc l"
      by (cases new) auto
    then show ?thesis using merge_single_sorted rs by simp
  qed
next
  assume k: "0 \<le> top_k"
    and h: "query_embeddings \<noteq> [] \<and> \<not> isl (load_configuration env) \<and> (\<forall>n. db_fault env n = None)"
  obtain cfg where cfg: "load_configuration env = Inr cfg"
    using h by (cases "load_configuration env") auto
  have ok: "\<forall>n. db_fault env n = None" using h by simp
  let ?w1 = "w\<lparr>db_calls := db_calls w + 1\<rparr>"
  let ?w2 = "?w1\<lparr>db_calls := db_calls ?w1 + 1\<rparr>"
  have c: "get_db_connection env w = (Inr (), ?w1)"
    using ok by (simp add: get_db_connection_def cfg db_interaction_ok)
  have d: "ensure_database_schema env ?w1 = (Inr (), ?w2)"
    using ok by (simp add: ensure_database_schema_def db_interaction_ok)
  obtain srs w3 where "search_each env query_embeddings top_k [] ?w2 = (Inr srs, w3)"
    using search_each_succeeds [OF ok k] by blast
  then show "\<exists>rs w'. similarity_search env query_embeddings top_k w = (Inr rs, w')"
    using h c d by (simp add: similarity_search_def)
qed


lemma example_search_two:
  "similarity_search (example_env [] [] []) [[0, 1], [1, 0]] 2
      (world0 [doc_row ''a'' [1, 0] 1, doc_row ''b'' [3, 4] 5]) =
    (Inr [hit ''b'' (4 / 5), hit ''a'' 1],
     (world0 [doc_row ''a'' [1, 0] 1, doc_row ''b'' [3, 4] 5])\<lparr>db_calls := 4\<rparr>)"
  by (simp add: similarity_search_def get_db_connection_def ensure_database_schema_def
      load_configuration_def startswith_def
      search_single_embedding_def linalg_norm_def db_interaction_def example_env_def world0_def
      doc_row_def sql_divide_def dot_product_def order_by_desc_def hit_def
      merge_search_results_def upt_rec Let_def)

lemma example_search_one:
  "similarity_search (example_env [] [] []) [[0, 1]] 2
      (world0 [doc_row ''a'' [1, 0] 1, doc_row ''b'' [3, 4] 5]) =
    (Inr [hit ''b'' (4 / 5), hit ''a'' 0],
     (world0 [doc_row ''a'' [1, 0] 1, doc_row ''b'' [3, 4] 5])\<lparr>db_calls := 3\<rparr>)"
  by (simp add: similarity_search_def get_db_connection_def ensure_database_schema_def
      load_configuration_def startswith_def
      search_single_embedding_def linalg_norm_def db_interaction_def example_env_def world0_def
      doc_row_def sql_divide_def dot_product_def order_by_desc_def hit_def
      merge_search_results_def upt_rec Let_def)

theorem similarity_search_bounded_witness:
  "(0::int) \<le> 2 \<and>
   similarity_search (example_env [] [] []) [[0, 1]] 2
      (world0 [doc_row ''a'' [1, 0] 1, doc_row ''b'' [3, 4] 5]) =
    (Inr [hit ''b'' (4 / 5), hit ''a'' 0],
     (world0 [doc_row ''a'' [1, 0] 1, doc_row ''b'' [3, 4] 5])\<lparr>db_calls := 3\<rparr>) \<and>
   int (length [hit ''b'' (4 / 5 :: real), hit ''a'' 0]) \<le> 2 \<and>
   length [[0, 1 :: real]] = 1 \<and>
   sorted_desc [hit ''b'' (4 / 5 :: real), hit ''a'' 0]"
proof -
  have z: "(0::int) \<le> 2" by simp
  note t = similarity_search_bounded [where top_k = 2 and env = "example_env [] [] []"
      and query_embeddings = "[[0, 1]]"
      and w = "world0 [doc_row ''a'' [1, 0] 1, doc_row ''b'' [3, 4] 5]", rule_format, OF z]
  have "int (length [hit ''b'' (4 / 5 :: real), hit ''a'' 0]) \<le> 2 \<and>
        distinct (map chunk_text [hit ''b'' (4 / 5 :: real), hit ''a'' 0]) \<and>
        (length [[0, 1 :: real]] = 1 \<longrightarrow> sorted_desc [hit ''b'' (4 / 5 :: real), hit ''a'' 0])"
    using t [THEN conjunct1, rule_format, OF example_search_one] by blast
  then show ?thesis using z example_search_one by simp
qed

text \<open>
  The claim as first stated also promises the descending order for several query
  vectors. The merge takes the best result of each list in turn: with the stored rows
  \<^verbatim>\<open>a\<close> (vector (1,0), norm 1) and \<^verbatim>\<open>b\<close> (vector (3,4), norm 5), the query vectors (0,1)
  and (1,0) and \<^verbatim>\<open>top_k=2\<close> it returns \<^verbatim>\<open>b\<close> with score 0.8 before \<^verbatim>\<open>a\<close> with score 1.
\<close>

theorem similarity_search_sorted_counterexample:
  "similarity_search (example_env [] [] []) [[0, 1], [1, 0]] 2
      (world0 [doc_row ''a'' [1, 0] 1, doc_row ''b'' [3, 4] 5]) =
    (Inr [hit ''b'' (4 / 5), hit ''a'' 1],
     (world0 [doc_row ''a'' [1, 0] 1, doc_row ''b'' [3, 4] 5])\<lparr>db_calls := 4\<rparr>) \<and>
   \<not> sorted_desc [hit ''b'' (4 / 5 :: real), hit ''a'' 1]"
  using example_search_two by (simp add: sorted_desc_def hit_def)


section \<open>Properties of the vector store\<close>

text \<open>
  Claim C2, as amended. When the chunk count differs from the vector count, or one of
  the two sequences is empty, or the source identifier is empty or only whitespace,
  the validation raises a \<^verbatim>\<open>ValueError\<close>, which \<^verbatim>\<open>store_chunks_to_db\<close> catches: the
  operation returns \<^verbatim>\<open>False\<close> to its caller, raises nothing, and leaves the whole state
  as it was: no database interaction happens and no record is written.
\<close>

theorem store_rejects_invalid:
  "length chunks \<noteq> length embeddings \<or> chunks = [] \<or> embeddings = [] \<or>
   fname = [] \<or> strip fname = [] \<longrightarrow>
     (\<exists>m. validate_data_for_indexing chunks embeddings fname = Inl (ValueError m)) \<and>
     store_chunks_to_db env chunks embeddings fname strategy w = (Inr False, w)"
proof
  assume a: "length chunks \<noteq> length embeddings \<or> chunks = [] \<or> embeddings = [] \<or>
    fname = [] \<or> strip fname = []"
  then have v: "\<exists>m. validate_data_for_indexing chunks embeddings fname = Inl (ValueError m)"
    by (auto simp: validate_data_for_indexing_def)
  then have "store_chunks_to_db env chunks embeddings fname strategy w = (Inr False, w)"
    by (auto simp: store_chunks_to_db_def)
  with v show "(\<exists>m. validate_data_for_indexing chunks embeddings fname = Inl (ValueError m)) \<and>
     store_chunks_to_db env chunks embeddings fname strategy w = (Inr False, w)" by simp
qed

theorem store_rejects_invalid_witness:
  "strip ''  '' = [] \<and>
   validate_data_for_indexing [''one''] [[1, 0]] ''  '' =
     Inl (ValueError ''Filename cannot be empty for indexing.'') \<and>
   store_chunks_to_db (example_env [] [] []) [''one''] [[1, 0]] ''  '' ''paragraph'' (world0 []) =
     (Inr False, world0 [])"
proof -
  have s: "strip ''  '' = []" by (simp add: strip_def lstrip_def rstrip_def isspace_def)
  have v: "validate_data_for_indexing [''one''] [[1, 0]] ''  '' =
     Inl (ValueError ''Filename cannot be empty for indexing.'')"
    by (simp add: validate_data_for_indexing_def s)
  show ?thesis
    using s v store_rejects_invalid [where fname = "''  ''" and chunks = "[''one'']"
        and embeddings = "[[1, 0]]" and env = "example_env [] [] []"
        and strategy = "''paragraph''" and w = "world0 []"]
    by simp
qed

text \<open>
  The claim as first stated has the operation fail with an error raised to the caller.
  The error of the validation does not leave the operation: the caller gets \<^verbatim>\<open>False\<close>.
\<close>

theorem store_returns_false_counterexample:
  "validate_data_for_indexing [''one'', ''two''] [[1, 0]] ''doc.pdf'' =
     Inl (ValueError ''Chunks count (2) doesn't match embeddings count (1).'') \<and>
   store_chunks_to_db (example_env [] [] []) [''one'', ''two''] [[1, 0]] ''doc.pdf'' ''paragraph''
     (world0 []) = (Inr False, world0 []) \<and>
   \<not> isl (fst (store_chunks_to_db (example_env [] [] []) [''one'', ''two''] [[1, 0]] ''doc.pdf''
     ''paragraph'' (world0 [])))"
  by (simp add: store_chunks_to_db_def validate_data_for_indexing_def str_nat.simps digit_char_def)

section \<open>Properties of the indexing orchestrator\<close>

subsection \<open>No operation touches the record of the steps\<close>

lemma db_interaction_steps: "steps (snd (db_interaction env w)) = steps w"
  by (simp add: db_interaction_def split: option.splits)

lemma db_interaction_documents: "documents (snd (db_interaction env w)) = documents w"
  by (simp add: db_interaction_def split: option.splits)

lemma get_db_connection_steps: "steps (snd (get_db_connection env w)) = steps w"
  using db_interaction_steps [of env w]
  by (auto simp: get_db_connection_def split: sum.splits prod.splits)

lemma ensure_database_schema_steps: "steps (snd (ensure_database_schema env w)) = steps w"
  using db_interaction_steps [of env w]
  by (auto simp: ensure_database_schema_def split: sum.splits prod.splits)

lemma delete_document_data_steps: "steps (snd (delete_document_data env f w)) = steps w"
proof -
  obtain r1 w1 where c: "get_db_connection env w = (r1, w1)" by (cases "get_db_connection env w")
  obtain r2 w2 where d: "db_interaction env w1 = (r2, w2)" by (cases "db_interaction env w1")
  obtain r3 w3 where e: "db_interaction env w2 = (r3, w3)" by (cases "db_interaction env w2")
  have "steps w1 = steps w" using get_db_connection_steps [of env w] c by simp
  moreover have "steps w2 = steps w1" using db_interaction_steps [of env w1] d by simp
  moreover have "steps w3 = steps w2" using db_interaction_steps [of env w2] e by simp
  ultimately show ?thesis
    by (simp add: delete_document_data_def c d e split: sum.splits)
qed

lemma store_chunks_to_db_steps:
  "steps (snd (store_chunks_to_db env chunks embeddings fname strategy w)) = steps w"
proof -
  obtain r1 w1 where c: "get_db_connection env w = (r1, w1)" by (cases "get_db_connection env w")
  obtain r2 w2 where s: "ensure_database_schema env w1 = (r2, w2)"
    by (cases "ensure_database_schema env w1")
  obtain r3 w3 where d: "db_interaction env w2 = (r3, w3)" by (cases "db_interaction env w2")
  obtain r4 w4 where e: "db_interaction env w3 = (r4, w4)" by (cases "db_interaction env w3")
  have "steps w1 = steps w" using get_db_connection_steps [of env w] c by simp
  moreover have "steps w2 = steps w1" using ensure_database_schema_steps [of env w1] s by simp
  moreover have "steps w3 = steps w2" using db_interaction_steps [of env w2] d by simp
  moreover have "steps w4 = steps w3" using db_interaction_steps [of env w3] e by simp
  ultimately show ?thesis
    by (simp add: store_chunks_to_db_def c s d e Let_def split: sum.splits)
qed

lemma retry_attempts_steps:
  "steps (snd (retry_attempts env model content k attempts w)) = steps w"
  by (induction attempts arbitrary: w) (auto simp: Let_def split: sum.splits)

lemma embed_batches_steps:
  "steps (snd (embed_batches env model chunks starts acc w)) = steps w"
proof (induction starts arbitrary: acc w)
  case Nil
  then show ?case by simp
next
  case (Cons s starts)
  let ?batch = "take (min (s + BATCH_SIZE) (length chunks) - s) (drop s chunks)"
  obtain r w1 where r: "embed_with_retry env model ?batch 3 w = (r, w1)"
    by (cases "embed_with_retry env model ?batch 3 w")
  have w1: "steps w1 = steps w"
    using retry_attempts_steps [of env model ?batch 3 "[0..<3]" w] r
    by (simp add: embed_with_retry_def)
  show ?case using r w1 Cons.IH
    by (auto simp: Let_def split: sum.splits option.splits)
qed

lemma generate_embeddings_steps: "steps (snd (generate_embeddings env chunks w)) = steps w"
proof (cases "load_configuration env")
  case (Inl e)
  then show ?thesis by (simp add: generate_embeddings_def)
next
  case (Inr cfg)
  show ?thesis
    using embed_batches_steps
      [of env "embedding_model cfg" chunks "batch_starts (length chunks)" "[]" w]
    by (auto simp: generate_embeddings_def Inr split: prod.splits sum.splits)
qed

subsection \<open>The order of the steps\<close>

text \<open>
  Claim C9. For every file path \<^verbatim>\<open>process_document\<close> enters its steps in the order
  delete, load, chunk, embed, store: the steps entered are a non-empty initial part of
  that sequence. When the delete step reports failure, the result is \<^verbatim>\<open>False\<close> and no
  later step is entered. When the load, chunk or embed step fails, the result is
  \<^verbatim>\<open>False\<close> and the failing step is the last one entered, so the store step is not
  reached. When all four succeed, the store step is entered and its outcome is the
  result.
\<close>

theorem process_document_steps:
  fixes env file_path w
  defines "d \<equiv> delete_document_data env (Some file_path) (enter Delete w)"
  defines "w3 \<equiv> enter Embed (enter Chunk (enter Load (snd d)))"
  defines "p \<equiv> process_document env file_path w"
  shows "(\<exists>n\<ge>1. steps (snd p) = steps w @ take n pipeline) \<and>
     (\<not> fst d \<longrightarrow> p = (False, snd d) \<and> steps (snd p) = steps w @ [Delete]) \<and>
     (fst d \<and> isl (load_document env file_path) \<longrightarrow>
        \<not> fst p \<and> steps (snd p) = steps w @ [Delete, Load]) \<and>
     (\<forall>text. fst d \<and> load_document env file_path = Inr text \<and> isl (chunk_by_paragraphs text) \<longrightarrow>
        \<not> fst p \<and> steps (snd p) = steps w @ [Delete, Load, Chunk]) \<and>
     (\<forall>text chunks. fst d \<and> load_document env file_path = Inr text \<and>
        chunk_by_paragraphs text = Inr chunks \<and> isl (fst (generate_embeddings env chunks w3)) \<longrightarrow>
        \<not> fst p \<and> steps (snd p) = steps w @ [Delete, Load, Chunk, Embed]) \<and>
     (\<forall>text chunks embs w4. fst d \<and> load_document env file_path = Inr text \<and>
        chunk_by_paragraphs text = Inr chunks \<and>
        generate_embeddings env chunks w3 = (Inr embs, w4) \<longrightarrow>
        steps (snd p) = steps w @ pipeline \<and>
        (fst p \<longleftrightarrow> fst (store_chunks_to_db env chunks embs file_path ''paragraph''
                            (enter Store w4)) = Inr True))"
proof -
  obtain ok w1 where dd: "d = (ok, w1)" by (cases d)
  have s1: "steps w1 = steps w @ [Delete]"
    using delete_document_data_steps [of env "Some file_path" "enter Delete w"] dd
    unfolding d_def by (simp add: enter_def)
  have pd: "delete_document_data env (Some file_path) (enter Delete w) = (ok, w1)"
    using dd d_def by simp
  have w3: "w3 = enter Embed (enter Chunk (enter Load w1))" using dd w3_def by simp
  show ?thesis
  proof (cases ok)
    case False
    have "p = (False, w1)" unfolding p_def process_document_def pd using False by simp
    then show ?thesis using False dd s1 by (auto simp: pipeline_def intro: exI [of _ 1])
  next
    case True
    note ok = True
    show ?thesis
    proof (cases "load_document env file_path")
      case (Inl e)
      have "p = (False, enter Load w1)"
        unfolding p_def process_document_def pd using ok Inl by simp
      then show ?thesis using ok dd s1 Inl
        by (auto simp: pipeline_def enter_def intro: exI [of _ 2])
    next
      case (Inr doc)
      note ld = Inr
      show ?thesis
      proof (cases "chunk_by_paragraphs doc")
        case (Inl e)
        have "p = (False, enter Chunk (enter Load w1))"
          unfolding p_def process_document_def pd using ok ld Inl by simp
        then show ?thesis using ok dd s1 ld Inl
          by (auto simp: pipeline_def enter_def intro: exI [of _ 3])
      next
        case (Inr chunks)
        note ch = Inr
        obtain r w4 where g: "generate_embeddings env chunks w3 = (r, w4)"
          by (cases "generate_embeddings env chunks w3")
        have s4: "steps w4 = steps w @ [Delete, Load, Chunk, Embed]"
          using generate_embeddings_steps [of env chunks w3] g s1 unfolding w3
          by (simp add: enter_def)
        show ?thesis
        proof (cases r)
          case (Inl e)
          have "p = (False, w4)"
            unfolding p_def process_document_def pd using ok ld ch g [unfolded w3] Inl by simp
          then show ?thesis using ok dd s4 ld ch g Inl
            by (auto simp: pipeline_def intro: exI [of _ 4])
        next
          case (Inr embs)
          obtain sr w5 where st: "store_chunks_to_db env chunks embs file_path ''paragraph''
             (enter Store w4) = (sr, w5)"
            by (cases "store_chunks_to_db env chunks embs file_path ''paragraph'' (enter Store w4)")
          have s5: "steps w5 = steps w @ pipeline"
            using store_chunks_to_db_steps [of env chunks embs file_path "''paragraph''" "enter Store w4"]
              st s4 by (simp add: enter_def pipeline_def)
          have pp: "p = (case sr of Inl e \<Rightarrow> False | Inr b \<Rightarrow> b, w5)"
            unfolding p_def process_document_def pd
            using ok ld ch g [unfolded w3] Inr st by (simp split: sum.splits)
          have n5: "\<exists>n\<ge>1. steps (snd p) = steps w @ take n pipeline"
            using pp s5 by (auto simp: pipeline_def intro: exI [of _ 5])
          show ?thesis using n5 ok dd ld ch g Inr st pp s5
            by (auto split: sum.splits)
        qed
      qed
    qed
  qed
qed


lemmas example_run_defs =
  process_document_def delete_document_data_def get_db_connection_def load_configuration_def
  startswith_def db_interaction_def example_env_def world0_def enter_def load_document_def
  extract_pdf_text_def chunk_by_paragraphs_def para_sep_def strip_def lstrip_def rstrip_def
  isspace_def generate_embeddings_def batch_starts_def BATCH_SIZE_def upt_rec retry_3_cases
  store_chunks_to_db_def validate_data_for_indexing_def ensure_database_schema_def Let_def

lemma example_delete_fails:
  "delete_document_data (example_env [] [0] ''one\<newline>\<newline>two'') (Some ''doc.pdf'')
     (enter Delete (world0 [])) = (False, (world0 [])\<lparr>db_calls := 1, steps := [Delete]\<rparr>)"
  by (simp add: example_run_defs)

lemma example_store_fails:
  "process_document (example_env [] [3] ''one\<newline>\<newline>two'') ''doc.pdf'' (world0 []) =
     (False, (world0 [])\<lparr>db_calls := 4, api_calls := 1, events := [Called 0],
                steps := [Delete, Load, Chunk, Embed, Store]\<rparr>)"
  by (simp add: example_run_defs)

theorem process_document_steps_witness:
  "\<not> fst (delete_document_data (example_env [] [0] ''one\<newline>\<newline>two'') (Some ''doc.pdf'')
           (enter Delete (world0 []))) \<and>
   process_document (example_env [] [0] ''one\<newline>\<newline>two'') ''doc.pdf'' (world0 []) =
     (False, (world0 [])\<lparr>db_calls := 1, steps := [Delete]\<rparr>) \<and>
   steps (snd (process_document (example_env [] [0] ''one\<newline>\<newline>two'') ''doc.pdf'' (world0 [])))
     = steps (world0 []) @ [Delete]"
proof -
  have d: "\<not> fst (delete_document_data (example_env [] [0] ''one\<newline>\<newline>two'')
      (Some ''doc.pdf'') (enter Delete (world0 [])))"
    unfolding example_delete_fails by simp
  note t = process_document_steps [where env = "example_env [] [0] ''one\<newline>\<newline>two''"
      and file_path = "''doc.pdf''" and w = "world0 []", THEN conjunct2, THEN conjunct1,
      rule_format, OF d]
  show ?thesis using d t unfolding example_delete_fails by (simp add: world0_def)
qed



end
